theory Spec2Isabelle
  imports Main "HOL-Library.Multiset"
begin

section \<open>Constants of main.cpp\<close>

definition NUM_CONSUMERS :: nat where
  "NUM_CONSUMERS = 8"

definition DATA_START :: int where
  "DATA_START = 30"

definition DATA_END :: int where
  "DATA_END = 45"

definition DATA_LENGTH :: int where
  "DATA_LENGTH = DATA_END - DATA_START"

text \<open>The range of the C++ type \<open>int\<close> (32 bits, two's complement).\<close>

definition INT_MAX :: int where
  "INT_MAX = 2147483647"

definition INT_MIN :: int where
  "INT_MIN = - 2147483648"

section \<open>Helper functions\<close>

text \<open>
  The ways the process can leave defined behaviour: a failed \<open>assert\<close>, a signed
  overflow of \<open>int\<close> arithmetic, a write outside the \<open>results\<close> array.
\<close>

datatype fault = AssertionFailed | SignedOverflow | OutOfBounds

text \<open>Addition of two \<open>int\<close> values; leaving the 32-bit range is undefined behaviour.\<close>

definition int_add :: "int \<Rightarrow> int \<Rightarrow> fault + int" where
  "int_add a b =
     (if INT_MIN \<le> a + b \<and> a + b \<le> INT_MAX then Inr (a + b) else Inl SignedOverflow)"

text \<open>
  \<^verbatim>\<open>int fibonacci(int n) { assert (n >= 1);
     return n <= 2 ? 1 : fibonacci(n-1) + fibonacci(n-2); }\<close>
  A fault of either recursive call is the fault of the whole call.
\<close>

function fibonacci :: "int \<Rightarrow> fault + int" where
  "fibonacci n =
     (if \<not> n \<ge> 1 then Inl AssertionFailed
      else if n \<le> 2 then Inr 1
      else (case fibonacci (n - 1) of
              Inl e \<Rightarrow> Inl e
            | Inr a \<Rightarrow> (case fibonacci (n - 2) of
                          Inl e \<Rightarrow> Inl e
                        | Inr b \<Rightarrow> int_add a b)))"
  by pat_completeness auto
termination
  by (relation "measure nat") auto

declare fibonacci.simps [simp del]

text \<open>
  The loop \<^verbatim>\<open>for (int i = 0; i < length; ++i) v.push_back(i);\<close> of
  \<open>random_permutation\<close>.
\<close>

function fill_loop :: "int \<Rightarrow> int \<Rightarrow> int list \<Rightarrow> int list" where
  "fill_loop i len v = (if i < len then fill_loop (i + 1) len (v @ [i]) else v)"
  by pat_completeness auto
termination
  by (relation "measure (\<lambda>(i, len, v). nat (len - i))") auto

declare fill_loop.simps [simp del]

text \<open>
  \<open>random_permutation\<close>. The library call \<open>std::random_shuffle\<close> is not code of the
  repository: it is the parameter \<open>shuffle\<close>, of which the C++ standard promises that it
  reorders the elements of the range (\<open>permuting\<close>).
\<close>

definition random_permutation :: "(int list \<Rightarrow> int list) \<Rightarrow> int \<Rightarrow> int list" where
  "random_permutation shuffle len = shuffle (fill_loop 0 len [])"

definition permuting :: "(int list \<Rightarrow> int list) \<Rightarrow> bool" where
  "permuting shuffle = (\<forall>v. mset (shuffle v) = mset v)"

section \<open>Data structures\<close>

record BufferEntry =
  position :: int
  number :: int

datatype thread = ProducerThread | ConsumerThread nat

text \<open>
  \<open>struct Buffer\<close>. The mutex is its owner, if any. The condition variable has no field:
  the threads blocked on it are the consumers whose control point is inside
  \<open>cond_var.wait\<close> (\<open>CWait\<close> below).
\<close>

record Buffer =
  mutex :: "thread option"
  data :: "BufferEntry list"
  production_is_finished :: bool

section \<open>Producer and consumer as interleaved threads\<close>

text \<open>
  Control points of \<open>consumer\<close>:
  \<^item> \<open>CStart\<close>: at \<open>while (do_run)\<close> with \<open>do_run\<close> true, about to lock the mutex;
  \<^item> \<open>CCheck\<close>: mutex held, about to evaluate the condition of the inner \<open>while\<close>;
  \<^item> \<open>CWait\<close>: blocked inside \<open>cond_var.wait\<close>, mutex released;
  \<^item> \<open>CWoken\<close>: woken inside \<open>wait\<close>, about to lock the mutex again;
  \<^item> \<open>CHandle\<close>: mutex held, inner loop left, at \<open>if (buffer.data.empty())\<close>;
  \<^item> \<open>CWork be\<close>: mutex released, \<open>be\<close> is the local entry, about to compute and store;
  \<^item> \<open>CDone\<close>: \<open>do_run\<close> is false, the loop is left.
\<close>

datatype consumer_pc =
  CStart | CCheck | CWait | CWoken | CHandle | CWork BufferEntry | CDone

text \<open>
  Control points of \<open>producer\<close>; the list is the part of the permutation from the
  iterator \<open>it\<close> to the end:
  \<^item> \<open>PLoop rest\<close>: at the loop test, about to lock the mutex (to push when \<open>rest\<close> is
    not empty, to end production when it is);
  \<^item> \<open>PPush x rest\<close>: mutex held, about to \<open>push_back\<close> the entry of \<open>x\<close>;
  \<^item> \<open>PNotifyOne rest\<close>: mutex released, about to call \<open>notify_one\<close>;
  \<^item> \<open>PSetFlag\<close>: mutex held, about to set \<open>production_is_finished\<close>;
  \<^item> \<open>PNotifyAll\<close>: mutex released, about to call \<open>notify_all\<close>;
  \<^item> \<open>PDone\<close>: returned.
  The random sleeps of the producer change the timing only, which every schedule covers;
  the assertion \<open>min < max\<close> of \<open>random\<close> holds at both of its calls, \<open>random(1, 4)\<close> and
  \<open>random(1, 10)\<close>. Printing is left out.
\<close>

datatype producer_pc =
  PLoop "int list" | PPush int "int list" | PNotifyOne "int list"
  | PSetFlag | PNotifyAll | PDone

record state =
  buffer :: Buffer
  prod :: producer_pc
  cons :: "consumer_pc list"
  results :: "int list"
  fault :: "fault option"

text \<open>
  What the scheduler decides: the producer moves (at \<open>notify_one\<close> with the waiting
  consumer that is woken, if there is one), consumer \<open>k\<close> moves, or consumer \<open>k\<close> wakes
  up spuriously.
\<close>

datatype action = Produce "nat option" | Consume nat | Spurious nat

text \<open>What a step does, as seen from outside.\<close>

datatype event =
  Locked thread
  | Pushed BufferEntry
  | NotifiedOne "nat option"
  | Closed
  | NotifiedAll
  | Blocked nat
  | Woke nat
  | Passed nat
  | PopItem nat BufferEntry
  | PopClosed nat
  | PopRetry nat
  | Wrote nat int int
  | Aborted nat fault

text \<open>
  \<^verbatim>\<open>buffer.data.push_back(Buffer::BufferEntry{*it, DATA_START + *it});\<close>
  The positions the producer is given are below \<open>DATA_LENGTH\<close>, far from where the
  addition would leave the range of \<open>int\<close>.
\<close>

definition entry_of :: "int \<Rightarrow> BufferEntry" where
  "entry_of x = \<lparr>position = x, number = DATA_START + x\<rparr>"

definition push_back :: "int \<Rightarrow> Buffer \<Rightarrow> Buffer" where
  "push_back x b = b\<lparr>data := data b @ [entry_of x]\<rparr>"

text \<open>\<^verbatim>\<open>buffer.production_is_finished = true;\<close>\<close>

definition finish_production :: "Buffer \<Rightarrow> Buffer" where
  "finish_production b = b\<lparr>production_is_finished := True\<rparr>"

definition lock :: "thread \<Rightarrow> Buffer \<Rightarrow> Buffer" where
  "lock t b = b\<lparr>mutex := Some t\<rparr>"

definition unlock :: "Buffer \<Rightarrow> Buffer" where
  "unlock b = b\<lparr>mutex := None\<rparr>"

text \<open>\<open>cond_var.notify_all()\<close>: every blocked consumer is woken.\<close>

definition notify_all :: "consumer_pc list \<Rightarrow> consumer_pc list" where
  "notify_all cs = map (\<lambda>pc. if pc = CWait then CWoken else pc) cs"

text \<open>
  \<open>producer\<close>, one step from each control point:
  \<^verbatim>\<open>for (auto it = permutation->begin(); it != permutation->end(); ++it) {
      { std::lock_guard<std::mutex> lock(buffer.mutex);
        buffer.data.push_back(Buffer::BufferEntry{*it, DATA_START + *it}); }
      buffer.cond_var.notify_one();
  }
  { std::lock_guard<std::mutex> lock(buffer.mutex);
    buffer.production_is_finished = true; }
  buffer.cond_var.notify_all();\<close>
  Locking is possible only while the mutex is free. \<open>notify_one\<close> wakes one of the blocked
  consumers if there is any: the argument \<open>w\<close> is the one the scheduler picks, and it must
  be \<open>None\<close> exactly when no consumer is blocked.
\<close>

definition producer_step :: "nat option \<Rightarrow> state \<Rightarrow> (event \<times> state) option" where
  "producer_step w s =
     (case prod s of
        PLoop rest \<Rightarrow>
          (if mutex (buffer s) \<noteq> None then None
           else Some (Locked ProducerThread,
                  s\<lparr>buffer := lock ProducerThread (buffer s),
                    prod := (case rest of [] \<Rightarrow> PSetFlag | x # xs \<Rightarrow> PPush x xs)\<rparr>))
      | PPush x rest \<Rightarrow>
          Some (Pushed (entry_of x),
            s\<lparr>buffer := unlock (push_back x (buffer s)), prod := PNotifyOne rest\<rparr>)
      | PNotifyOne rest \<Rightarrow>
          (case w of
             None \<Rightarrow>
               (if CWait \<in> set (cons s) then None
                else Some (NotifiedOne None, s\<lparr>prod := PLoop rest\<rparr>))
           | Some k \<Rightarrow>
               (if k < length (cons s) \<and> cons s ! k = CWait
                then Some (NotifiedOne (Some k),
                       s\<lparr>cons := (cons s)[k := CWoken], prod := PLoop rest\<rparr>)
                else None))
      | PSetFlag \<Rightarrow>
          Some (Closed,
            s\<lparr>buffer := unlock (finish_production (buffer s)), prod := PNotifyAll\<rparr>)
      | PNotifyAll \<Rightarrow>
          Some (NotifiedAll, s\<lparr>cons := notify_all (cons s), prod := PDone\<rparr>)
      | PDone \<Rightarrow> None)"

text \<open>
  \<open>consumer\<close>, one step from each control point of consumer \<open>k\<close>:
  \<^verbatim>\<open>while (do_run) {
      std::unique_lock<std::mutex> lock(buffer.mutex);
      while (buffer.data.empty() && ! buffer.production_is_finished) {
          buffer.cond_var.wait(lock);
      }
      if (buffer.data.empty()) {
          do_run = (! buffer.production_is_finished);
          lock.unlock();
      } else {
          Buffer::BufferEntry be = buffer.data.front();
          buffer.data.pop_front();
          lock.unlock();
          int fib_result = fibonacci(be.number);
          results[be.position] = fib_result;
      }
  }\<close>
  A consumer inside \<open>wait\<close> makes no step of its own: it is woken by the producer or
  spuriously (see \<open>step\<close>), and then has to lock the mutex again before it returns to the
  condition of the inner loop. A failed assertion or an overflow in \<open>fibonacci\<close> and an
  index outside \<open>results\<close> abort the process.
\<close>

definition consumer_step :: "nat \<Rightarrow> state \<Rightarrow> (event \<times> state) option" where
  "consumer_step k s =
     (if \<not> k < length (cons s) then None
      else case cons s ! k of
        CStart \<Rightarrow>
          (if mutex (buffer s) \<noteq> None then None
           else Some (Locked (ConsumerThread k),
                  s\<lparr>buffer := lock (ConsumerThread k) (buffer s),
                    cons := (cons s)[k := CCheck]\<rparr>))
      | CCheck \<Rightarrow>
          (if data (buffer s) = [] \<and> \<not> production_is_finished (buffer s)
           then Some (Blocked k,
                  s\<lparr>buffer := unlock (buffer s), cons := (cons s)[k := CWait]\<rparr>)
           else Some (Passed k, s\<lparr>cons := (cons s)[k := CHandle]\<rparr>))
      | CWait \<Rightarrow> None
      | CWoken \<Rightarrow>
          (if mutex (buffer s) \<noteq> None then None
           else Some (Locked (ConsumerThread k),
                  s\<lparr>buffer := lock (ConsumerThread k) (buffer s),
                    cons := (cons s)[k := CCheck]\<rparr>))
      | CHandle \<Rightarrow>
          (case data (buffer s) of
             [] \<Rightarrow>
               (let do_run = \<not> production_is_finished (buffer s) in
                Some (if do_run then PopRetry k else PopClosed k,
                  s\<lparr>buffer := unlock (buffer s),
                    cons := (cons s)[k := (if do_run then CStart else CDone)]\<rparr>))
           | be # rest \<Rightarrow>
               Some (PopItem k be,
                 s\<lparr>buffer := unlock ((buffer s)\<lparr>data := rest\<rparr>),
                   cons := (cons s)[k := CWork be]\<rparr>))
      | CWork be \<Rightarrow>
          (case fibonacci (number be) of
             Inl f \<Rightarrow> Some (Aborted k f, s\<lparr>fault := Some f\<rparr>)
           | Inr fib_result \<Rightarrow>
               (if 0 \<le> position be \<and> position be < int (length (results s))
                then Some (Wrote k (position be) fib_result,
                       s\<lparr>results := (results s)[nat (position be) := fib_result],
                         cons := (cons s)[k := CStart]\<rparr>)
                else Some (Aborted k OutOfBounds, s\<lparr>fault := Some OutOfBounds\<rparr>)))
      | CDone \<Rightarrow> None)"

text \<open>One step of the process; a process that has aborted makes no more steps.\<close>

definition step :: "action \<Rightarrow> state \<Rightarrow> (event \<times> state) option" where
  "step a s =
     (if fault s \<noteq> None then None
      else case a of
        Produce w \<Rightarrow> producer_step w s
      | Consume k \<Rightarrow> consumer_step k s
      | Spurious k \<Rightarrow>
          (if k < length (cons s) \<and> cons s ! k = CWait
           then Some (Woke k, s\<lparr>cons := (cons s)[k := CWoken]\<rparr>)
           else None))"

text \<open>A schedule run from a state: the events and the state reached.\<close>

fun run :: "action list \<Rightarrow> state \<Rightarrow> (event list \<times> state) option" where
  "run [] s = Some ([], s)"
| "run (a # as) s =
     (case step a s of
        None \<Rightarrow> None
      | Some (e, s') \<Rightarrow>
          (case run as s' of
             None \<Rightarrow> None
           | Some (es, s'') \<Rightarrow> Some (e # es, s'')))"

text \<open>The state a schedule ends in, when every step of it is possible.\<close>

definition exec :: "action list \<Rightarrow> state \<Rightarrow> state option" where
  "exec sched s = map_option snd (run sched s)"

text \<open>The entries pushed and the entries popped, in the order of the events.\<close>

fun pushed :: "event \<Rightarrow> BufferEntry list" where
  "pushed (Pushed be) = [be]"
| "pushed _ = []"

fun popped :: "event \<Rightarrow> BufferEntry list" where
  "popped (PopItem k be) = [be]"
| "popped _ = []"

definition pushes :: "event list \<Rightarrow> BufferEntry list" where
  "pushes evs = concat (map pushed evs)"

definition pops :: "event list \<Rightarrow> BufferEntry list" where
  "pops evs = concat (map popped evs)"

text \<open>
  \<open>main\<close> up to the joins: \<open>n\<close> consumers and the producer on the permutation, the
  buffer empty, the \<open>results\<close> array with whatever its memory holds (\<open>r0\<close>). \<open>main\<close>
  starts the consumers before the producer; a thread that has not been started yet is a
  thread that the schedule has not chosen yet.
\<close>

definition init :: "nat \<Rightarrow> int list \<Rightarrow> int list \<Rightarrow> state" where
  "init n permutation r0 =
     \<lparr>buffer = \<lparr>mutex = None, data = [], production_is_finished = False\<rparr>,
      prod = PLoop permutation,
      cons = replicate n CStart,
      results = r0,
      fault = None\<rparr>"

definition main_init :: "(int list \<Rightarrow> int list) \<Rightarrow> int list \<Rightarrow> state" where
  "main_init shuffle r0 = init NUM_CONSUMERS (random_permutation shuffle DATA_LENGTH) r0"

text \<open>All threads can be joined: every consumer and the producer have returned.\<close>

definition joined :: "state \<Rightarrow> bool" where
  "joined s = (prod s = PDone \<and> list_all (\<lambda>pc. pc = CDone) (cons s) \<and> fault s = None)"

text \<open>The assertions of \<open>main\<close> after the joins.\<close>

definition check_results :: "int list \<Rightarrow> bool" where
  "check_results rs =
     (Inr (rs ! 0) = fibonacci DATA_START \<and>
      Inr (rs ! 1) = fibonacci (DATA_START + 1) \<and>
      list_all (\<lambda>i. int_add (rs ! (i - 2)) (rs ! (i - 1)) = Inr (rs ! i))
        [2..<nat DATA_LENGTH])"

text \<open>
  The closing block of \<open>producer\<close> (lock, set the flag, unlock, \<open>notify_all\<close>) as one
  operation on the shared state; it cannot start while the mutex is held.
\<close>

definition close_queue :: "state \<Rightarrow> state option" where
  "close_queue s =
     (if mutex (buffer s) \<noteq> None then None
      else Some (s\<lparr>buffer := unlock (finish_production (lock ProducerThread (buffer s))),
                  cons := notify_all (cons s)\<rparr>))"

section \<open>Auxiliary notions for the proofs\<close>

text \<open>The Fibonacci numbers, as a pair of consecutive ones, computed in linear time.\<close>

fun fib_pair :: "nat \<Rightarrow> int \<times> int" where
  "fib_pair 0 = (0, 1)"
| "fib_pair (Suc n) = (case fib_pair n of (a, b) \<Rightarrow> (b, a + b))"

definition fib_num :: "nat \<Rightarrow> int" where
  "fib_num n = fst (fib_pair n)"

text \<open>
  The control points at which a thread holds the mutex.
\<close>

definition in_critical :: "state \<Rightarrow> thread \<Rightarrow> bool" where
  "in_critical s t =
     (case t of
        ProducerThread \<Rightarrow>
          (case prod s of PPush x rest \<Rightarrow> True | PSetFlag \<Rightarrow> True | _ \<Rightarrow> False)
      | ConsumerThread k \<Rightarrow>
          k < length (cons s) \<and> (cons s ! k = CCheck \<or> cons s ! k = CHandle))"

text \<open>
  The positions the producer has still to push, and whether it is past setting the flag.
\<close>

fun remaining :: "producer_pc \<Rightarrow> int list" where
  "remaining (PLoop rest) = rest"
| "remaining (PPush x rest) = x # rest"
| "remaining (PNotifyOne rest) = rest"
| "remaining PSetFlag = []"
| "remaining PNotifyAll = []"
| "remaining PDone = []"

fun closed_pc :: "producer_pc \<Rightarrow> bool" where
  "closed_pc PNotifyAll = True"
| "closed_pc PDone = True"
| "closed_pc _ = False"

text \<open>
  The entries that are on their way: the entry a consumer has taken and not yet stored a
  result for, and all entries not yet pushed, in the queue or taken.
\<close>

fun held :: "consumer_pc \<Rightarrow> BufferEntry list" where
  "held (CWork be) = [be]"
| "held _ = []"

definition inflight :: "consumer_pc list \<Rightarrow> BufferEntry list" where
  "inflight cs = concat (map held cs)"

definition outstanding :: "state \<Rightarrow> BufferEntry multiset" where
  "outstanding s =
     mset (map entry_of (remaining (prod s))) + mset (data (buffer s))
       + mset (inflight (cons s))"

text \<open>
  Invariants of the synchronisation: the mutex is owned by exactly the thread inside a
  critical section; the flag is set exactly when the producer is past setting it; a
  consumer past the wait loop finds an entry or the queue closed; a consumer has left only
  if the queue is closed and empty; no consumer is still blocked once the producer has
  returned.
\<close>

definition mutex_inv :: "state \<Rightarrow> bool" where
  "mutex_inv s = (\<forall>t. in_critical s t = (mutex (buffer s) = Some t))"

definition flag_inv :: "state \<Rightarrow> bool" where
  "flag_inv s = (production_is_finished (buffer s) = closed_pc (prod s))"

definition handle_inv :: "state \<Rightarrow> bool" where
  "handle_inv s =
     (CHandle \<in> set (cons s) \<longrightarrow>
        data (buffer s) \<noteq> [] \<or> production_is_finished (buffer s))"

definition done_inv :: "state \<Rightarrow> bool" where
  "done_inv s =
     (CDone \<in> set (cons s) \<longrightarrow>
        production_is_finished (buffer s) \<and> data (buffer s) = [])"

definition wait_inv :: "state \<Rightarrow> bool" where
  "wait_inv s = (prod s = PDone \<longrightarrow> CWait \<notin> set (cons s))"

definition sync_inv :: "state \<Rightarrow> bool" where
  "sync_inv s = (mutex_inv s \<and> flag_inv s \<and> handle_inv s \<and> done_inv s \<and> wait_inv s)"

text \<open>
  Invariant of the result store for the permutation \<open>p\<close>: the entries on their way are
  entries of \<open>p\<close>, each at most as often as in \<open>p\<close>; the slot of every position whose entry
  is no longer on its way holds the result for its key; the array has its length; nothing
  has aborted.
\<close>

definition store_inv :: "int list \<Rightarrow> state \<Rightarrow> bool" where
  "store_inv p s =
     (outstanding s \<subseteq># mset (map entry_of p) \<and>
      (\<forall>x\<in>set p. entry_of x \<notin># outstanding s \<longrightarrow>
         fibonacci (DATA_START + x) = Inr (results s ! nat x)) \<and>
      length (results s) = nat DATA_LENGTH \<and>
      fault s = None)"

text \<open>The number of consumers blocked on the condition variable.\<close>

definition waiters :: "consumer_pc list \<Rightarrow> nat" where
  "waiters cs = length (filter (\<lambda>pc. pc = CWait) cs)"

text \<open>
  A bound on the steps left once production is finished: every consumer has at most
  \<open>rank\<close> steps to the end of its current round, every queued entry costs one round of four
  steps, and the producer may still have to call \<open>notify_all\<close>.
\<close>

fun rank :: "consumer_pc \<Rightarrow> nat" where
  "rank CDone = 0"
| "rank CHandle = 1"
| "rank CCheck = 2"
| "rank CStart = 3"
| "rank CWoken = 3"
| "rank (CWork be) = 4"
| "rank CWait = 4"

definition work_left :: "state \<Rightarrow> nat" where
  "work_left s =
     (if fault s \<noteq> None then 0
      else 1 + 4 * length (data (buffer s)) + sum_list (map rank (cons s))
           + (if prod s = PNotifyAll then 1 else 0))"

text \<open>
  The actions that are not steps of a thread itself, and the schedules without them: such
  a schedule does not rely on a spurious wake-up.
\<close>

fun is_spurious :: "action \<Rightarrow> bool" where
  "is_spurious (Spurious k) = True"
| "is_spurious _ = False"

definition own_steps :: "action list \<Rightarrow> bool" where
  "own_steps sched = list_all (\<lambda>a. \<not> is_spurious a) sched"

section \<open>Concrete states and schedules\<close>

text \<open>
  A state in which the producer has pushed the entry of position 0, ended production and
  returned, and the only consumer has not run yet.
\<close>

definition closed_state :: state where
  "closed_state =
     \<lparr>buffer = \<lparr>mutex = None, data = [entry_of 0], production_is_finished = True\<rparr>,
      prod = PDone, cons = [CStart], results = [0], fault = None\<rparr>"

text \<open>The Fibonacci numbers 30 to 44.\<close>

definition fib_table :: "int list" where
  "fib_table = [832040, 1346269, 2178309, 3524578, 5702887, 9227465, 14930352, 24157817, 39088169, 63245986, 102334155, 165580141, 267914296, 433494437, 701408733]"

text \<open>
  A schedule of \<open>main\<close> with \<open>rev\<close> for the shuffle: the producer pushes the 15
  entries and ends production before any consumer runs (48 steps: lock, push and notify
  for each entry, then lock, set the flag and notify all), consumer 0 handles the 15
  entries (four steps each) and leaves, then the other seven consumers leave in turn.
  \<open>main_final\<close> is the state it ends in.
\<close>

definition main_schedule :: "action list" where
  "main_schedule =
     replicate 48 (Produce None) @ replicate 63 (Consume 0)
       @ concat (map (\<lambda>k. replicate 3 (Consume k)) [1..<8])"

definition main_final :: state where
  "main_final =
     \<lparr>buffer = \<lparr>mutex = None, data = [], production_is_finished = True\<rparr>,
      prod = PDone, cons = replicate 8 CDone, results = fib_table, fault = None\<rparr>"

text \<open>
  \<open>main\<close> with \<open>rev\<close> for the shuffle, after the producer has pushed the first entry and
  consumer 0 has taken it.
\<close>

definition working_state :: state where
  "working_state =
     \<lparr>buffer = \<lparr>mutex = None, data = [], production_is_finished = False\<rparr>,
      prod = PLoop [13, 12, 11, 10, 9, 8, 7, 6, 5, 4, 3, 2, 1, 0],
      cons = [CWork (entry_of 14), CStart, CStart, CStart, CStart, CStart, CStart, CStart],
      results = replicate 15 0, fault = None\<rparr>"

text \<open>
  Two consumers and the permutation \<open>[1, 0]\<close>. Consumer 0 blocks on the empty queue; the
  producer pushes entry 1 and wakes it, but consumer 1 takes the entry first, so consumer 0
  finds the queue empty and blocks again; the second push wakes consumer 0, which takes
  entry 0; consumer 1 blocks, wakes up spuriously and blocks again; the producer ends
  production and wakes all; both consumers find the queue empty and closed and leave.
  \<open>small_events\<close> are the events of this schedule and \<open>small_final\<close> the state it ends in.
\<close>

definition small_schedule :: "action list" where
  "small_schedule =
     [Consume 0, Consume 0, Produce None, Produce None, Produce (Some 0),
      Consume 1, Consume 1, Consume 1, Consume 0, Consume 0, Consume 1,
      Produce None, Produce None, Produce (Some 0),
      Consume 0, Consume 0, Consume 0, Consume 0,
      Consume 1, Consume 1, Spurious 1, Consume 1, Consume 1,
      Produce None, Produce None, Produce None,
      Consume 1, Consume 1, Consume 1, Consume 0, Consume 0, Consume 0]"

definition small_events :: "event list" where
  "small_events =
     [Locked (ConsumerThread 0), Blocked 0, Locked ProducerThread,
      Pushed (entry_of 1), NotifiedOne (Some 0),
      Locked (ConsumerThread 1), Passed 1, PopItem 1 (entry_of 1),
      Locked (ConsumerThread 0), Blocked 0, Wrote 1 1 1346269,
      Locked ProducerThread, Pushed (entry_of 0), NotifiedOne (Some 0),
      Locked (ConsumerThread 0), Passed 0, PopItem 0 (entry_of 0), Wrote 0 0 832040,
      Locked (ConsumerThread 1), Blocked 1, Woke 1, Locked (ConsumerThread 1), Blocked 1,
      Locked ProducerThread, Closed, NotifiedAll,
      Locked (ConsumerThread 1), Passed 1, PopClosed 1,
      Locked (ConsumerThread 0), Passed 0, PopClosed 0]"

definition small_final :: state where
  "small_final =
     \<lparr>buffer = \<lparr>mutex = None, data = [], production_is_finished = True\<rparr>,
      prod = PDone, cons = [CDone, CDone],
      results = [832040, 1346269, 0, 0, 0, 0, 0, 0, 0, 0, 0, 0, 0, 0, 0],
      fault = None\<rparr>"

text \<open>
  \<open>main\<close> with \<open>rev\<close> for the shuffle, after the producer has pushed the first entry and
  consumer 0 has taken it, computed its result and stored it: the events and the state.
\<close>

definition written_state :: state where
  "written_state =
     \<lparr>buffer = \<lparr>mutex = None, data = [], production_is_finished = False\<rparr>,
      prod = PLoop [13, 12, 11, 10, 9, 8, 7, 6, 5, 4, 3, 2, 1, 0],
      cons = [CStart, CStart, CStart, CStart, CStart, CStart, CStart, CStart],
      results = [0, 0, 0, 0, 0, 0, 0, 0, 0, 0, 0, 0, 0, 0, 701408733], fault = None\<rparr>"

definition written_events :: "event list" where
  "written_events =
     [Locked ProducerThread, Pushed (entry_of 14), NotifiedOne None,
      Locked (ConsumerThread 0), Passed 0, PopItem 0 (entry_of 14), Wrote 0 14 701408733]"





text \<open>
  One consumer and the permutation \<open>[0]\<close>: the producer holding the mutex and about to
  push (\<open>pushing_state\<close>), and after the push (\<open>pushed_state\<close>). Six producer steps from
  the start lead to \<open>closed_state\<close>.
\<close>

definition pushing_state :: state where
  "pushing_state =
     \<lparr>buffer = \<lparr>mutex = Some ProducerThread, data = [], production_is_finished = False\<rparr>,
      prod = PPush 0 [], cons = [CStart], results = [0], fault = None\<rparr>"

definition pushed_state :: state where
  "pushed_state =
     \<lparr>buffer = \<lparr>mutex = None, data = [entry_of 0], production_is_finished = False\<rparr>,
      prod = PNotifyOne [], cons = [CStart], results = [0], fault = None\<rparr>"

text \<open>
  A state the program does not reach: the producer about to push although
  \<open>production_is_finished\<close> is already set.
\<close>

definition push_state :: state where
  "push_state =
     \<lparr>buffer = \<lparr>mutex = Some ProducerThread, data = [], production_is_finished = True\<rparr>,
      prod = PPush 0 [], cons = [CStart], results = replicate 15 0, fault = None\<rparr>"

text \<open>
  Two consumers and nothing to produce: consumer 0 blocked on the empty queue and the
  producer about to end production (\<open>waiting_state\<close>), and the same state with the flag
  set and consumer 0 woken (\<open>released_state\<close>).
\<close>

definition waiting_state :: state where
  "waiting_state =
     \<lparr>buffer = \<lparr>mutex = None, data = [], production_is_finished = False\<rparr>,
      prod = PLoop [], cons = [CWait, CStart], results = replicate 15 0, fault = None\<rparr>"

definition released_state :: state where
  "released_state =
     \<lparr>buffer = \<lparr>mutex = None, data = [], production_is_finished = True\<rparr>,
      prod = PLoop [], cons = [CWoken, CStart], results = replicate 15 0, fault = None\<rparr>"

text \<open>
  Two consumers, both blocked on the condition variable: with the permutation \<open>[1]\<close> after
  the push, the producer about to call \<open>notify_one\<close> (\<open>notify_state\<close>) and after it woke
  consumer 1 (\<open>notified_state\<close>); with nothing to produce, the producer about to call
  \<open>notify_all\<close> (\<open>closing_state\<close>) and after it (\<open>all_woken_state\<close>).
\<close>

definition notify_state :: state where
  "notify_state =
     \<lparr>buffer = \<lparr>mutex = None, data = [entry_of 1], production_is_finished = False\<rparr>,
      prod = PNotifyOne [], cons = [CWait, CWait], results = replicate 15 0, fault = None\<rparr>"

definition closing_state :: state where
  "closing_state =
     \<lparr>buffer = \<lparr>mutex = None, data = [], production_is_finished = True\<rparr>,
      prod = PNotifyAll, cons = [CWait, CWait], results = replicate 15 0, fault = None\<rparr>"

definition notified_state :: state where
  "notified_state =
     \<lparr>buffer = \<lparr>mutex = None, data = [entry_of 1], production_is_finished = False\<rparr>,
      prod = PLoop [], cons = [CWait, CWoken], results = replicate 15 0, fault = None\<rparr>"

definition all_woken_state :: state where
  "all_woken_state =
     \<lparr>buffer = \<lparr>mutex = None, data = [], production_is_finished = True\<rparr>,
      prod = PDone, cons = [CWoken, CWoken], results = replicate 15 0, fault = None\<rparr>"

text \<open>
  \<open>main\<close> with \<open>rev\<close> for the shuffle after the producer has returned and before any
  consumer has run (\<open>produced_state\<close>), and after consumer 0 has taken the first entry
  (\<open>popping_state\<close>).
\<close>

definition produced_state :: state where
  "produced_state =
     \<lparr>buffer = \<lparr>mutex = None,
        data = map entry_of [14, 13, 12, 11, 10, 9, 8, 7, 6, 5, 4, 3, 2, 1, 0],
        production_is_finished = True\<rparr>,
      prod = PDone, cons = replicate 8 CStart, results = replicate 15 0, fault = None\<rparr>"

definition popping_state :: state where
  "popping_state =
     \<lparr>buffer = \<lparr>mutex = None,
        data = map entry_of [13, 12, 11, 10, 9, 8, 7, 6, 5, 4, 3, 2, 1, 0],
        production_is_finished = True\<rparr>,
      prod = PDone,
      cons = [CWork (entry_of 14), CStart, CStart, CStart, CStart, CStart, CStart, CStart],
      results = replicate 15 0, fault = None\<rparr>"

section \<open>The compute function\<close>

text \<open>The first assertion of \<open>main\<close>, \<^verbatim>\<open>assert(DATA_LENGTH >= 2)\<close>, holds.\<close>

lemma data_length_assertion: "DATA_LENGTH \<ge> 2"
  by (simp add: DATA_LENGTH_def DATA_END_def DATA_START_def)

lemma fib_num_simps:
  "fib_num 0 = 0" "fib_num (Suc 0) = 1"
  "fib_num (Suc (Suc n)) = fib_num n + fib_num (Suc n)"
  by (simp_all add: fib_num_def split: prod.splits)

lemma fib_pair_eq: "fib_pair n = (fib_num n, fib_num (Suc n))"
  by (simp add: fib_num_def split: prod.splits)

lemma fib_num_nonneg_pair: "0 \<le> fib_num n \<and> 0 \<le> fib_num (Suc n)"
  by (induction n) (simp_all add: fib_num_simps)

lemma fib_num_nonneg: "0 \<le> fib_num n"
  using fib_num_nonneg_pair by blast

lemma fib_num_Suc_mono: "fib_num n \<le> fib_num (Suc n)"
proof (cases n)
  case 0
  then show ?thesis by (simp add: fib_num_simps)
next
  case (Suc m)
  then show ?thesis using fib_num_nonneg [of m] by (simp add: fib_num_simps)
qed

lemma fib_num_mono: "m \<le> n \<Longrightarrow> fib_num m \<le> fib_num n"
  by (rule lift_Suc_mono_le [of fib_num]) (rule fib_num_Suc_mono)

lemma fibonacci_fib_num:
  "1 \<le> n \<Longrightarrow> fib_num (nat n) \<le> INT_MAX \<Longrightarrow> fibonacci n = Inr (fib_num (nat n))"
proof (induction n rule: fibonacci.induct)
  case (1 n)
  show ?case
  proof (cases "n \<le> 2")
    case True
    with "1.prems" have "n = 1 \<or> n = 2" by arith
    then show ?thesis
      by (auto simp: fibonacci.simps [of 1] fibonacci.simps [of 2] fib_num_simps
          numeral_2_eq_2)
  next
    case False
    define k where "k = nat (n - 2)"
    have k: "nat n = Suc (Suc k)" "nat (n - 1) = Suc k" "nat (n - 2) = k"
      using False unfolding k_def by arith+
    have b1: "fib_num (Suc k) \<le> INT_MAX"
      using "1.prems"(2) fib_num_mono [of "Suc k" "Suc (Suc k)"] k by simp
    have b2: "fib_num k \<le> INT_MAX"
      using b1 fib_num_mono [of k "Suc k"] by simp
    have r1: "fibonacci (n - 1) = Inr (fib_num (Suc k))"
      using "1.IH"(1) False "1.prems" b1 k by simp
    have r2: "fibonacci (n - 2) = Inr (fib_num k)"
      using "1.IH"(2) [OF _ _ r1] False "1.prems" b2 k by simp
    have "int_add (fib_num (Suc k)) (fib_num k) = Inr (fib_num (nat n))"
      using "1.prems"(2) k fib_num_nonneg [of k] fib_num_nonneg [of "Suc k"]
      by (simp add: int_add_def fib_num_simps INT_MIN_def)
    then show ?thesis
      using False "1.prems" r1 r2 by (subst fibonacci.simps) simp
  qed
qed

lemma fibonacci_assert:
  "1 \<le> n \<Longrightarrow> fibonacci n \<noteq> Inl AssertionFailed \<and> fibonacci n \<noteq> Inl OutOfBounds"
proof (induction n rule: fibonacci.induct)
  case (1 n)
  show ?case
  proof (cases "n \<le> 2")
    case True
    then show ?thesis using "1.prems" by (subst (1 2) fibonacci.simps) simp
  next
    case False
    then show ?thesis
      using "1.prems" "1.IH"
      by (subst (1 2) fibonacci.simps) (auto simp: int_add_def split: sum.splits)
  qed
qed

section \<open>Steps\<close>

lemmas buffer_ops = lock_def unlock_def push_back_def finish_production_def

lemma step_cases [consumes 1, case_names st_lockP st_push st_notify_none st_notify_some st_close st_notify_all
    st_lockC st_block st_pass st_relock st_pop_empty st_pop_item st_write st_abort_fib st_abort_oob st_spurious]:
  assumes "step a s = Some (e, s')"
  obtains
    (st_lockP) w rest where "a = Produce w" "fault s = None" "prod s = PLoop rest"
      "mutex (buffer s) = None" "e = Locked ProducerThread"
      "s' = s\<lparr>buffer := lock ProducerThread (buffer s),
               prod := (case rest of [] \<Rightarrow> PSetFlag | x # xs \<Rightarrow> PPush x xs)\<rparr>"
  | (st_push) w x rest where "a = Produce w" "fault s = None" "prod s = PPush x rest"
      "e = Pushed (entry_of x)"
      "s' = s\<lparr>buffer := unlock (push_back x (buffer s)), prod := PNotifyOne rest\<rparr>"
  | (st_notify_none) rest where "a = Produce None" "fault s = None" "prod s = PNotifyOne rest"
      "CWait \<notin> set (cons s)" "e = NotifiedOne None" "s' = s\<lparr>prod := PLoop rest\<rparr>"
  | (st_notify_some) k rest where "a = Produce (Some k)" "fault s = None"
      "prod s = PNotifyOne rest" "k < length (cons s)" "cons s ! k = CWait"
      "e = NotifiedOne (Some k)" "s' = s\<lparr>cons := (cons s)[k := CWoken], prod := PLoop rest\<rparr>"
  | (st_close) w where "a = Produce w" "fault s = None" "prod s = PSetFlag" "e = Closed"
      "s' = s\<lparr>buffer := unlock (finish_production (buffer s)), prod := PNotifyAll\<rparr>"
  | (st_notify_all) w where "a = Produce w" "fault s = None" "prod s = PNotifyAll"
      "e = NotifiedAll" "s' = s\<lparr>cons := notify_all (cons s), prod := PDone\<rparr>"
  | (st_lockC) k where "a = Consume k" "fault s = None" "k < length (cons s)"
      "cons s ! k = CStart" "mutex (buffer s) = None" "e = Locked (ConsumerThread k)"
      "s' = s\<lparr>buffer := lock (ConsumerThread k) (buffer s), cons := (cons s)[k := CCheck]\<rparr>"
  | (st_block) k where "a = Consume k" "fault s = None" "k < length (cons s)"
      "cons s ! k = CCheck" "data (buffer s) = []" "\<not> production_is_finished (buffer s)"
      "e = Blocked k" "s' = s\<lparr>buffer := unlock (buffer s), cons := (cons s)[k := CWait]\<rparr>"
  | (st_pass) k where "a = Consume k" "fault s = None" "k < length (cons s)"
      "cons s ! k = CCheck" "data (buffer s) \<noteq> [] \<or> production_is_finished (buffer s)"
      "e = Passed k" "s' = s\<lparr>cons := (cons s)[k := CHandle]\<rparr>"
  | (st_relock) k where "a = Consume k" "fault s = None" "k < length (cons s)"
      "cons s ! k = CWoken" "mutex (buffer s) = None" "e = Locked (ConsumerThread k)"
      "s' = s\<lparr>buffer := lock (ConsumerThread k) (buffer s), cons := (cons s)[k := CCheck]\<rparr>"
  | (st_pop_empty) k where "a = Consume k" "fault s = None" "k < length (cons s)"
      "cons s ! k = CHandle" "data (buffer s) = []"
      "e = (if \<not> production_is_finished (buffer s) then PopRetry k else PopClosed k)"
      "s' = s\<lparr>buffer := unlock (buffer s),
               cons := (cons s)[k := (if \<not> production_is_finished (buffer s)
                                      then CStart else CDone)]\<rparr>"
  | (st_pop_item) k be rest where "a = Consume k" "fault s = None" "k < length (cons s)"
      "cons s ! k = CHandle" "data (buffer s) = be # rest" "e = PopItem k be"
      "s' = s\<lparr>buffer := unlock ((buffer s)\<lparr>data := rest\<rparr>),
               cons := (cons s)[k := CWork be]\<rparr>"
  | (st_write) k be v where "a = Consume k" "fault s = None" "k < length (cons s)"
      "cons s ! k = CWork be" "fibonacci (number be) = Inr v"
      "0 \<le> position be" "position be < int (length (results s))"
      "e = Wrote k (position be) v"
      "s' = s\<lparr>results := (results s)[nat (position be) := v],
               cons := (cons s)[k := CStart]\<rparr>"
  | (st_abort_fib) k be f where "a = Consume k" "fault s = None" "k < length (cons s)"
      "cons s ! k = CWork be" "fibonacci (number be) = Inl f"
      "e = Aborted k f" "s' = s\<lparr>fault := Some f\<rparr>"
  | (st_abort_oob) k be v where "a = Consume k" "fault s = None" "k < length (cons s)"
      "cons s ! k = CWork be" "fibonacci (number be) = Inr v"
      "\<not> (0 \<le> position be \<and> position be < int (length (results s)))"
      "e = Aborted k OutOfBounds" "s' = s\<lparr>fault := Some OutOfBounds\<rparr>"
  | (st_spurious) k where "a = Spurious k" "fault s = None" "k < length (cons s)"
      "cons s ! k = CWait" "e = Woke k" "s' = s\<lparr>cons := (cons s)[k := CWoken]\<rparr>"
proof (cases a)
  case (Produce w)
  with assms show ?thesis
    by (cases "prod s"; cases w)
      (auto simp: step_def producer_step_def split: if_splits
        intro: st_lockP st_push st_notify_none st_notify_some st_close st_notify_all)
next
  case (Consume k)
  with assms have k: "k < length (cons s)" and f: "fault s = None"
    by (auto simp: step_def consumer_step_def split: if_splits)
  show ?thesis
  proof (cases "cons s ! k")
    case CStart
    with assms Consume k f show ?thesis
      by (auto simp: step_def consumer_step_def split: if_splits intro: st_lockC)
  next
    case CCheck
    with assms Consume k f show ?thesis
      by (auto simp: step_def consumer_step_def split: if_splits intro: st_block st_pass)
  next
    case CWait
    with assms Consume k f show ?thesis
      by (auto simp: step_def consumer_step_def split: if_splits)
  next
    case CWoken
    with assms Consume k f show ?thesis
      by (auto simp: step_def consumer_step_def split: if_splits intro: st_relock)
  next
    case CHandle
    with assms Consume k f show ?thesis
      by (cases "data (buffer s)")
        (auto simp: step_def consumer_step_def Let_def split: if_splits
          intro: st_pop_empty st_pop_item)
  next
    case (CWork be)
    with assms Consume k f show ?thesis
      by (cases "fibonacci (number be)")
        (auto simp: step_def consumer_step_def split: if_splits
          intro: st_write st_abort_fib st_abort_oob)
  next
    case CDone
    with assms Consume k f show ?thesis
      by (auto simp: step_def consumer_step_def split: if_splits)
  qed
next
  case (Spurious k)
  with assms show ?thesis
    by (auto simp: step_def split: if_splits intro: st_spurious)
qed

section \<open>Schedules\<close>

lemma run_append:
  "run (as @ bs) s =
     (case run as s of
        None \<Rightarrow> None
      | Some (es, s') \<Rightarrow>
          (case run bs s' of None \<Rightarrow> None | Some (fs, s'') \<Rightarrow> Some (es @ fs, s'')))"
  by (induction as arbitrary: s) (auto split: option.splits)

lemma run_ConsE:
  assumes "run (a # as) s = Some (evs, s'')"
  obtains e s' es where "step a s = Some (e, s')" "run as s' = Some (es, s'')" "evs = e # es"
  using assms by (auto split: option.splits)

lemma closed_state_run:
  "run [Consume 0, Consume 0, Consume 0] closed_state =
     Some ([Locked (ConsumerThread 0), Passed 0, PopItem 0 (entry_of 0)],
       \<lparr>buffer = \<lparr>mutex = None, data = [], production_is_finished = True\<rparr>,
        prod = PDone, cons = [CWork (entry_of 0)], results = [0], fault = None\<rparr>)"
  by (simp add: closed_state_def step_def consumer_step_def buffer_ops)

section \<open>Mutual exclusion\<close>

lemma in_set_update:
  assumes "x \<in> set (cs[k := pc])"
  shows "x = pc \<or> (\<exists>j<length cs. j \<noteq> k \<and> cs ! j = x)"
proof -
  from assms obtain i where i: "i < length cs" "cs[k := pc] ! i = x"
    by (auto simp: in_set_conv_nth)
  show ?thesis
  proof (cases "i = k")
    case True
    with i show ?thesis by simp
  next
    case False
    with i show ?thesis by auto
  qed
qed

lemma in_set_update_other: "x \<in> set (cs[k := pc]) \<Longrightarrow> x \<noteq> pc \<Longrightarrow> x \<in> set cs"
  using set_update_subset_insert [of cs k pc] by auto

lemma nth_update_cases:
  "j < length cs \<Longrightarrow> cs[k := pc] ! j = (if j = k then pc else cs ! j)"
  by (cases "j = k") simp_all

lemma in_critical_consumer:
  "in_critical s (ConsumerThread k) =
     (k < length (cons s) \<and> (cons s ! k = CCheck \<or> cons s ! k = CHandle))"
  by (simp add: in_critical_def)

lemma in_critical_producer:
  "in_critical s ProducerThread = (prod s = PSetFlag \<or> (\<exists>x rest. prod s = PPush x rest))"
  by (auto simp: in_critical_def split: producer_pc.splits)

lemma in_critical_same:
  assumes "prod s' = prod s" "cons s' = cons s"
  shows "in_critical s' u = in_critical s u"
  using assms by (cases u) (simp_all add: in_critical_def)

lemma in_critical_other_consumer:
  assumes "prod s' = prod s" "cons s' = (cons s)[k := pc]" "u \<noteq> ConsumerThread k"
  shows "in_critical s' u = in_critical s u"
  using assms by (cases u) (auto simp: in_critical_def nth_update_cases split: if_splits)

lemma in_critical_not_producer:
  assumes "cons s' = cons s" "u \<noteq> ProducerThread"
  shows "in_critical s' u = in_critical s u"
  using assms by (cases u) (auto simp: in_critical_def)

lemma in_critical_woken:
  assumes "cons s' = (cons s)[k := CWoken]" "cons s ! k = CWait" "u \<noteq> ProducerThread"
  shows "in_critical s' u = in_critical s u"
  using assms by (cases u) (auto simp: in_critical_def nth_update_cases split: if_splits)

lemma in_critical_notify_all:
  assumes "cons s' = notify_all (cons s)" "u \<noteq> ProducerThread"
  shows "in_critical s' u = in_critical s u"
  using assms by (cases u) (auto simp: in_critical_def notify_all_def split: if_splits)

lemma mutex_inv_acquire:
  assumes "mutex_inv s" "mutex (buffer s) = None" "mutex (buffer s') = Some t"
    "in_critical s' t" "\<And>u. u \<noteq> t \<Longrightarrow> in_critical s' u = in_critical s u"
  shows "mutex_inv s'"
  unfolding mutex_inv_def
proof
  fix u
  show "in_critical s' u = (mutex (buffer s') = Some u)"
  proof (cases "u = t")
    case True
    with assms(3,4) show ?thesis by simp
  next
    case False
    have "\<not> in_critical s u" using assms(1,2) by (simp add: mutex_inv_def)
    with False assms(3,5) show ?thesis by auto
  qed
qed

lemma mutex_inv_release:
  assumes "mutex_inv s" "in_critical s t" "mutex (buffer s') = None"
    "\<not> in_critical s' t" "\<And>u. u \<noteq> t \<Longrightarrow> in_critical s' u = in_critical s u"
  shows "mutex_inv s'"
  unfolding mutex_inv_def
proof
  fix u
  have m: "mutex (buffer s) = Some t" using assms(1,2) by (simp add: mutex_inv_def)
  show "in_critical s' u = (mutex (buffer s') = Some u)"
  proof (cases "u = t")
    case True
    with assms(3,4) show ?thesis by simp
  next
    case False
    have "\<not> in_critical s u" using assms(1) m False by (auto simp: mutex_inv_def)
    with False assms(3,5) show ?thesis by auto
  qed
qed

lemma mutex_inv_keep:
  assumes "mutex_inv s" "mutex (buffer s') = mutex (buffer s)"
    "\<And>u. in_critical s' u = in_critical s u"
  shows "mutex_inv s'"
  using assms by (simp add: mutex_inv_def)


lemma mutex_inv_step:
  assumes "step a s = Some (e, s')" "mutex_inv s"
  shows "mutex_inv s'"
  using assms(1)
proof (cases rule: step_cases)
  case (st_lockP w rest)
  show ?thesis
  proof (rule mutex_inv_acquire [OF assms(2), where t = "ProducerThread"])
    fix u assume "u \<noteq> ProducerThread"
    then show "in_critical s' u = in_critical s u"
      using st_lockP by (intro in_critical_not_producer) simp_all
  next
    show "in_critical s' ProducerThread"
      using st_lockP by (cases rest) (simp_all add: in_critical_producer)
  qed (use st_lockP in \<open>simp_all add: buffer_ops in_critical_consumer in_critical_producer\<close>)
next
  case (st_push w x rest)
  show ?thesis
  proof (rule mutex_inv_release [OF assms(2), where t = "ProducerThread"])
    fix u assume "u \<noteq> ProducerThread"
    then show "in_critical s' u = in_critical s u"
      using st_push by (intro in_critical_not_producer) simp_all
  qed (use st_push in \<open>simp_all add: buffer_ops in_critical_consumer in_critical_producer\<close>)
next
  case (st_notify_none rest)
  show ?thesis
  proof (rule mutex_inv_keep [OF assms(2)])
    fix u show "in_critical s' u = in_critical s u"
      using st_notify_none by (cases u) (simp_all add: in_critical_def)
  qed (use st_notify_none in simp)
next
  case (st_notify_some k rest)
  show ?thesis
  proof (rule mutex_inv_keep [OF assms(2)])
    fix u show "in_critical s' u = in_critical s u"
    proof (cases u)
      case ProducerThread
      with st_notify_some show ?thesis by (simp add: in_critical_producer)
    next
      case (ConsumerThread j)
      then have "u \<noteq> ProducerThread" by simp
      with st_notify_some show ?thesis by (intro in_critical_woken [where k = k]) simp_all
    qed
  qed (use st_notify_some in simp)
next
  case (st_close w)
  show ?thesis
  proof (rule mutex_inv_release [OF assms(2), where t = "ProducerThread"])
    fix u assume "u \<noteq> ProducerThread"
    then show "in_critical s' u = in_critical s u"
      using st_close by (intro in_critical_not_producer) simp_all
  qed (use st_close in \<open>simp_all add: buffer_ops in_critical_consumer in_critical_producer\<close>)
next
  case (st_notify_all w)
  show ?thesis
  proof (rule mutex_inv_keep [OF assms(2)])
    fix u show "in_critical s' u = in_critical s u"
    proof (cases u)
      case ProducerThread
      with st_notify_all show ?thesis by (simp add: in_critical_producer)
    next
      case (ConsumerThread j)
      then have "u \<noteq> ProducerThread" by simp
      with st_notify_all show ?thesis by (intro in_critical_notify_all) simp_all
    qed
  qed (use st_notify_all in simp)
next
  case (st_lockC k)
  show ?thesis
  proof (rule mutex_inv_acquire [OF assms(2), where t = "ConsumerThread k"])
    fix u assume "u \<noteq> ConsumerThread k"
    then show "in_critical s' u = in_critical s u"
      using st_lockC by (intro in_critical_other_consumer [where k = k and pc = "CCheck"]) simp_all
  qed (use st_lockC in \<open>simp_all add: buffer_ops in_critical_consumer in_critical_producer\<close>)
next
  case (st_block k)
  show ?thesis
  proof (rule mutex_inv_release [OF assms(2), where t = "ConsumerThread k"])
    fix u assume "u \<noteq> ConsumerThread k"
    then show "in_critical s' u = in_critical s u"
      using st_block by (intro in_critical_other_consumer [where k = k and pc = "CWait"]) simp_all
  qed (use st_block in \<open>simp_all add: buffer_ops in_critical_consumer in_critical_producer\<close>)
next
  case (st_pass k)
  show ?thesis
  proof (rule mutex_inv_keep [OF assms(2)])
    fix u show "in_critical s' u = in_critical s u"
    proof (cases "u = ConsumerThread k")
      case True
      with st_pass show ?thesis by (simp add: in_critical_consumer)
    next
      case False
      with st_pass show ?thesis
        by (intro in_critical_other_consumer [where k = k and pc = "CHandle"]) simp_all
    qed
  qed (use st_pass in simp)
next
  case (st_relock k)
  show ?thesis
  proof (rule mutex_inv_acquire [OF assms(2), where t = "ConsumerThread k"])
    fix u assume "u \<noteq> ConsumerThread k"
    then show "in_critical s' u = in_critical s u"
      using st_relock by (intro in_critical_other_consumer [where k = k and pc = "CCheck"]) simp_all
  qed (use st_relock in \<open>simp_all add: buffer_ops in_critical_consumer in_critical_producer\<close>)
next
  case (st_pop_empty k)
  show ?thesis
  proof (rule mutex_inv_release [OF assms(2), where t = "ConsumerThread k"])
    fix u assume "u \<noteq> ConsumerThread k"
    then show "in_critical s' u = in_critical s u"
      using st_pop_empty by (intro in_critical_other_consumer [where k = k and pc = "if \<not> production_is_finished (buffer s) then CStart else CDone"]) simp_all
  qed (use st_pop_empty in \<open>simp_all add: buffer_ops in_critical_consumer in_critical_producer\<close>)
next
  case (st_pop_item k be rest)
  show ?thesis
  proof (rule mutex_inv_release [OF assms(2), where t = "ConsumerThread k"])
    fix u assume "u \<noteq> ConsumerThread k"
    then show "in_critical s' u = in_critical s u"
      using st_pop_item by (intro in_critical_other_consumer [where k = k and pc = "CWork be"]) simp_all
  qed (use st_pop_item in \<open>simp_all add: buffer_ops in_critical_consumer in_critical_producer\<close>)
next
  case (st_write k be v)
  show ?thesis
  proof (rule mutex_inv_keep [OF assms(2)])
    fix u show "in_critical s' u = in_critical s u"
    proof (cases "u = ConsumerThread k")
      case True
      with st_write show ?thesis by (simp add: in_critical_consumer)
    next
      case False
      with st_write show ?thesis
        by (intro in_critical_other_consumer [where k = k and pc = "CStart"]) simp_all
    qed
  qed (use st_write in simp)
next
  case (st_abort_fib k be f)
  show ?thesis
  proof (rule mutex_inv_keep [OF assms(2)])
    fix u show "in_critical s' u = in_critical s u"
      using st_abort_fib by (intro in_critical_same) simp_all
  qed (use st_abort_fib in simp)
next
  case (st_abort_oob k be v)
  show ?thesis
  proof (rule mutex_inv_keep [OF assms(2)])
    fix u show "in_critical s' u = in_critical s u"
      using st_abort_oob by (intro in_critical_same) simp_all
  qed (use st_abort_oob in simp)
next
  case (st_spurious k)
  show ?thesis
  proof (rule mutex_inv_keep [OF assms(2)])
    fix u show "in_critical s' u = in_critical s u"
    proof (cases u)
      case ProducerThread
      with st_spurious show ?thesis by (simp add: in_critical_producer)
    next
      case (ConsumerThread j)
      then have "u \<noteq> ProducerThread" by simp
      with st_spurious show ?thesis by (intro in_critical_woken [where k = k]) simp_all
    qed
  qed (use st_spurious in simp)
qed

section \<open>Invariants of the synchronisation\<close>

lemma flag_inv_step:
  assumes "step a s = Some (e, s')" "flag_inv s"
  shows "flag_inv s'"
  using assms
  by (cases rule: step_cases) (auto simp: flag_inv_def buffer_ops split: list.splits)

lemma critical_consumer_unique:
  assumes "mutex_inv s" "k < length (cons s)" "cons s ! k = CCheck \<or> cons s ! k = CHandle"
    "j < length (cons s)" "cons s ! j = CCheck \<or> cons s ! j = CHandle"
  shows "j = k"
proof -
  have "in_critical s (ConsumerThread k)" "in_critical s (ConsumerThread j)"
    using assms by (simp_all add: in_critical_consumer)
  then show ?thesis using assms(1) by (simp add: mutex_inv_def)
qed

lemma critical_producer_excludes:
  assumes "mutex_inv s" "prod s = PSetFlag \<or> prod s = PPush x rest"
  shows "CCheck \<notin> set (cons s) \<and> CHandle \<notin> set (cons s)"
proof -
  have p: "in_critical s ProducerThread"
    using assms(2) by (auto simp: in_critical_producer)
  have "\<not> in_critical s (ConsumerThread j)" for j
    using assms(1) p by (auto simp: mutex_inv_def)
  then show ?thesis by (auto simp: in_critical_consumer in_set_conv_nth)
qed

lemma handle_after_update:
  assumes "mutex_inv s" "k < length (cons s)" "cons s ! k = CCheck \<or> cons s ! k = CHandle"
    "CHandle \<in> set ((cons s)[k := pc])"
  shows "pc = CHandle"
proof (rule ccontr)
  assume "pc \<noteq> CHandle"
  with in_set_update [OF assms(4)] obtain j where
    j: "j < length (cons s)" "j \<noteq> k" "cons s ! j = CHandle" by auto
  with critical_consumer_unique [OF assms(1-3), of j] show False by simp
qed

lemma handle_inv_step:
  assumes "step a s = Some (e, s')" "handle_inv s" "mutex_inv s"
  shows "handle_inv s'"
  using assms(1)
proof (cases rule: step_cases)
  case (st_push w x rest)
  then show ?thesis by (simp add: handle_inv_def buffer_ops)
next
  case (st_pop_item k be rest)
  then show ?thesis
    using handle_after_update [OF assms(3), of k "CWork be"]
    by (auto simp: handle_inv_def buffer_ops)
next
  case (st_pop_empty k)
  then show ?thesis
    using handle_after_update [OF assms(3), of k CStart]
      handle_after_update [OF assms(3), of k CDone]
    by (auto simp: handle_inv_def buffer_ops)
next
  case (st_block k)
  then show ?thesis
    using handle_after_update [OF assms(3), of k CWait]
    by (auto simp: handle_inv_def buffer_ops)
next
  case (st_notify_all w)
  then show ?thesis using assms(2) by (auto simp: handle_inv_def notify_all_def split: if_splits)
qed (use assms(2) in \<open>auto simp: handle_inv_def buffer_ops split: list.splits
      dest: in_set_update_other\<close>)

lemma done_inv_step:
  assumes "step a s = Some (e, s')" "done_inv s" "flag_inv s"
  shows "done_inv s'"
  using assms
proof (cases rule: step_cases)
  case (st_notify_all w)
  then show ?thesis using assms(2) by (auto simp: done_inv_def notify_all_def split: if_splits)
next
  case (st_pop_empty k)
  then show ?thesis using assms(2)
    by (cases "production_is_finished (buffer s)")
      (auto simp: done_inv_def buffer_ops dest: in_set_update_other)
qed (auto simp: done_inv_def flag_inv_def buffer_ops split: list.splits
      dest: in_set_update_other)

lemma wait_inv_step:
  assumes "step a s = Some (e, s')" "wait_inv s" "flag_inv s"
  shows "wait_inv s'"
  using assms
proof (cases rule: step_cases)
  case (st_notify_all w)
  then show ?thesis by (auto simp: wait_inv_def notify_all_def)
qed (auto simp: wait_inv_def flag_inv_def buffer_ops split: list.splits
      dest: in_set_update_other)

lemma sync_inv_step:
  assumes "step a s = Some (e, s')" "sync_inv s"
  shows "sync_inv s'"
  using assms mutex_inv_step flag_inv_step handle_inv_step done_inv_step wait_inv_step
  unfolding sync_inv_def by blast

lemma sync_inv_init: "sync_inv (init n p r0)"
  by (auto simp: sync_inv_def mutex_inv_def flag_inv_def handle_inv_def done_inv_def
      wait_inv_def init_def in_critical_def split: thread.splits)

lemma sync_inv_run:
  "run sched s = Some (evs, s') \<Longrightarrow> sync_inv s \<Longrightarrow> sync_inv s'"
proof (induction sched arbitrary: s evs)
  case Nil
  then show ?case by simp
next
  case (Cons a as)
  from Cons.prems(1) obtain e s1 es where
    st: "step a s = Some (e, s1)" and r: "run as s1 = Some (es, s')"
    by (rule run_ConsE)
  from st Cons.prems(2) have "sync_inv s1" by (rule sync_inv_step)
  with r show ?case by (rule Cons.IH)
qed

section \<open>The permutation and the entries on their way\<close>

lemma fill_loop_upto: "fill_loop i n v = v @ [i..n - 1]"
proof (induction i n v rule: fill_loop.induct)
  case (1 i len v)
  show ?case
  proof (cases "i < len")
    case True
    then have "[i..len - 1] = i # [i + 1..len - 1]" by (simp add: upto_rec1)
    with True "1.IH" show ?thesis by (subst fill_loop.simps) simp
  next
    case False
    then show ?thesis by (subst fill_loop.simps) simp
  qed
qed

lemma random_permutation_mset:
  assumes "permuting shuffle"
  shows "mset (random_permutation shuffle n) = mset [0..n - 1]"
  using assms by (simp add: random_permutation_def permuting_def fill_loop_upto)

lemma random_permutation_set:
  assumes "permuting shuffle"
  shows "set (random_permutation shuffle n) = {0..n - 1}"
  using random_permutation_mset [OF assms, of n] by (metis set_mset_mset set_upto)

lemma random_permutation_distinct:
  assumes "permuting shuffle"
  shows "distinct (random_permutation shuffle n)"
  using random_permutation_mset [OF assms, of n] by (metis distinct_upto mset_eq_imp_distinct_iff)

lemma mset_inflight_update:
  "k < length cs \<Longrightarrow>
   mset (inflight (cs[k := pc])) + mset (held (cs ! k)) = mset (inflight cs) + mset (held pc)"
proof (induction cs arbitrary: k)
  case Nil
  then show ?case by simp
next
  case (Cons c cs)
  show ?case
  proof (cases k)
    case 0
    then show ?thesis by (simp add: inflight_def)
  next
    case (Suc j)
    with Cons.prems have "j < length cs" by simp
    from Cons.IH [OF this] Suc show ?thesis by (simp add: inflight_def)
  qed
qed

lemma inflight_update_same:
  assumes "k < length cs" "held (cs ! k) = held pc"
  shows "mset (inflight (cs[k := pc])) = mset (inflight cs)"
  using mset_inflight_update [OF assms(1), of pc] assms(2) by simp

lemma inflight_notify_all: "inflight (notify_all cs) = inflight cs"
proof -
  have "held (if pc = CWait then CWoken else pc) = held pc" for pc by simp
  then show ?thesis by (simp add: inflight_def notify_all_def comp_def)
qed

lemma held_in_inflight: "k < length cs \<Longrightarrow> cs ! k = CWork be \<Longrightarrow> be \<in> set (inflight cs)"
  by (force simp: inflight_def in_set_conv_nth)

lemma outstanding_step:
  assumes "step a s = Some (e, s')"
  shows "outstanding s =
     outstanding s' + (case a of Consume k \<Rightarrow>
        (case cons s ! k of CWork be \<Rightarrow> (if fault s' = None then {#be#} else {#}) | _ \<Rightarrow> {#})
       | _ \<Rightarrow> {#})"
  using assms
proof (cases rule: step_cases)
  case (st_lockP w rest)
  then show ?thesis by (cases rest) (simp_all add: outstanding_def buffer_ops)
next
  case (st_pop_item k be rest)
  then show ?thesis
    using mset_inflight_update [of k "cons s" "CWork be"]
    by (simp add: outstanding_def buffer_ops)
next
  case (st_write k be v)
  then show ?thesis
    using mset_inflight_update [of k "cons s" CStart]
    by (simp add: outstanding_def buffer_ops)
qed (simp_all add: outstanding_def buffer_ops inflight_update_same inflight_notify_all)

section \<open>The result store\<close>

lemma fib_num_46: "fib_num 46 = 1836311903"
  by code_simp

lemma fibonacci_key:
  assumes "0 \<le> x" "x \<le> DATA_LENGTH - 1"
  shows "fibonacci (DATA_START + x) = Inr (fib_num (nat (DATA_START + x)))"
proof -
  have "nat (DATA_START + x) \<le> 46"
    using assms by (simp add: DATA_START_def DATA_LENGTH_def DATA_END_def)
  then have "fib_num (nat (DATA_START + x)) \<le> fib_num 46" by (rule fib_num_mono)
  then have "fib_num (nat (DATA_START + x)) \<le> INT_MAX"
    by (simp add: fib_num_46 INT_MAX_def)
  moreover have "1 \<le> DATA_START + x" using assms by (simp add: DATA_START_def)
  ultimately show ?thesis by (rule fibonacci_fib_num [rotated])
qed

lemma work_entry:
  assumes "store_inv p s" "k < length (cons s)" "cons s ! k = CWork be"
  shows "\<exists>x\<in>set p. be = entry_of x"
proof -
  have "be \<in># mset (inflight (cons s))"
    using held_in_inflight [OF assms(2,3)] by simp
  then have "be \<in># outstanding s" by (simp add: outstanding_def)
  with assms(1) have "be \<in># mset (map entry_of p)"
    by (auto simp: store_inv_def dest: mset_subset_eqD)
  then show ?thesis by auto
qed

lemma store_inv_keep:
  assumes "store_inv p s" "outstanding s' = outstanding s" "results s' = results s"
    "fault s' = None"
  shows "store_inv p s'"
  using assms by (simp add: store_inv_def)

lemma entry_of_inject: "entry_of x = entry_of y \<Longrightarrow> x = y"
  by (simp add: entry_of_def)

lemma store_inv_step:
  assumes "step a s = Some (e, s')" "store_inv p s" "set p \<subseteq> {0..DATA_LENGTH - 1}"
  shows "store_inv p s'"
  using assms(1)
proof (cases rule: step_cases)
  case (st_write k be v)
  from work_entry [OF assms(2) st_write(3,4)] obtain x0 where
    x0: "x0 \<in> set p" "be = entry_of x0" by auto
  have os: "outstanding s = outstanding s' + {#be#}"
    using outstanding_step [OF assms(1)] st_write by simp
  have len: "length (results s) = nat DATA_LENGTH"
    using assms(2) by (simp add: store_inv_def)
  have r0: "0 \<le> x0" "x0 \<le> DATA_LENGTH - 1" using x0(1) assms(3) by auto
  have v: "fibonacci (DATA_START + x0) = Inr v"
    using st_write(5) x0(2) by (simp add: entry_of_def)
  have pos: "position be = x0" using x0(2) by (simp add: entry_of_def)
  have "outstanding s' \<subseteq># mset (map entry_of p)"
    using assms(2) os by (metis mset_subset_eq_add_left subset_mset.order_trans store_inv_def)
  moreover have "fibonacci (DATA_START + x) = Inr (results s' ! nat x)"
    if x: "x \<in> set p" "entry_of x \<notin># outstanding s'" for x
  proof (cases "x = x0")
    case True
    with st_write(9) pos v len r0 show ?thesis by simp
  next
    case False
    then have "entry_of x \<noteq> be" using x0(2) entry_of_inject by blast
    with x(2) os have "entry_of x \<notin># outstanding s" by simp
    with assms(2) x(1) have "fibonacci (DATA_START + x) = Inr (results s ! nat x)"
      by (simp add: store_inv_def)
    moreover have "0 \<le> x" using x(1) assms(3) by auto
    then have "nat x \<noteq> nat x0" using False r0 by simp
    ultimately show ?thesis using st_write(9) pos by simp
  qed
  moreover have "length (results s') = nat DATA_LENGTH" "fault s' = None"
    using st_write len by simp_all
  ultimately show ?thesis by (simp add: store_inv_def)
next
  case (st_abort_fib k be f)
  from work_entry [OF assms(2) st_abort_fib(3,4)] obtain x0 where
    x0: "x0 \<in> set p" "be = entry_of x0" by auto
  have "0 \<le> x0" "x0 \<le> DATA_LENGTH - 1" using x0(1) assms(3) by auto
  from fibonacci_key [OF this] st_abort_fib(5) x0(2) show ?thesis
    by (simp add: entry_of_def)
next
  case (st_abort_oob k be v)
  from work_entry [OF assms(2) st_abort_oob(3,4)] obtain x0 where
    x0: "x0 \<in> set p" "be = entry_of x0" by auto
  have "0 \<le> x0" "x0 \<le> DATA_LENGTH - 1" using x0(1) assms(3) by auto
  moreover have "length (results s) = nat DATA_LENGTH"
    using assms(2) by (simp add: store_inv_def)
  ultimately show ?thesis
    using st_abort_oob(6) x0(2) by (simp add: entry_of_def DATA_LENGTH_def DATA_END_def DATA_START_def)
qed (use outstanding_step [OF assms(1)] in
      \<open>(intro store_inv_keep [OF assms(2)]; simp add: buffer_ops)+\<close>)

section \<open>Reachable states\<close>

lemma run_snocE:
  assumes "run (as @ [a]) s = Some (evs, s'')"
  obtains es s' e where "run as s = Some (es, s')" "step a s' = Some (e, s'')" "evs = es @ [e]"
  using assms by (auto simp: run_append split: option.splits)

lemma run_invariant:
  assumes "run sched s0 = Some (evs, s)" "P [] s0"
    "\<And>es s1 a e s2. P es s1 \<Longrightarrow> step a s1 = Some (e, s2) \<Longrightarrow> P (es @ [e]) s2"
  shows "P evs s"
  using assms(1)
proof (induction sched arbitrary: evs s rule: rev_induct)
  case Nil
  with assms(2) show ?case by simp
next
  case (snoc a as)
  from snoc.prems obtain es s1 e where
    r: "run as s0 = Some (es, s1)" and st: "step a s1 = Some (e, s)" and ev: "evs = es @ [e]"
    by (rule run_snocE)
  from snoc.IH [OF r] st ev show ?case by (simp add: assms(3))
qed

lemma exec_SomeE:
  assumes "exec sched s0 = Some s"
  obtains evs where "run sched s0 = Some (evs, s)"
  using assms by (auto simp: exec_def)

lemma inflight_replicate: "inflight (replicate n CStart) = []"
  by (induction n) (simp_all add: inflight_def)

lemma store_inv_init:
  assumes "length r0 = nat DATA_LENGTH"
  shows "store_inv p (init n p r0)"
  using assms by (simp add: store_inv_def init_def outstanding_def inflight_replicate)

lemma reachable_inv:
  assumes "run sched (init n p r0) = Some (evs, s)"
  shows "sync_inv s"
    and "length r0 = nat DATA_LENGTH \<Longrightarrow> set p \<subseteq> {0..DATA_LENGTH - 1} \<Longrightarrow> store_inv p s"
proof -
  show "sync_inv s"
    using assms sync_inv_init by (rule sync_inv_run)
next
  assume h: "length r0 = nat DATA_LENGTH" "set p \<subseteq> {0..DATA_LENGTH - 1}"
  show "store_inv p s"
  proof (rule run_invariant [OF assms, where P = "\<lambda>es. store_inv p"])
    show "store_inv p (init n p r0)" by (rule store_inv_init [OF h(1)])
  next
    fix s1 a e s2
    assume "store_inv p s1" and "step a s1 = Some (e, s2)"
    from this(2,1) h(2) show "store_inv p s2" by (rule store_inv_step)
  qed
qed

lemma length_cons_step:
  assumes "step a s = Some (e, s')"
  shows "length (cons s') = length (cons s)"
  using assms by (cases rule: step_cases) (simp_all add: notify_all_def)

lemma length_cons_run:
  assumes "run sched s0 = Some (evs, s)"
  shows "length (cons s) = length (cons s0)"
  by (rule run_invariant [OF assms, where P = "\<lambda>es s. length (cons s) = length (cons s0)"])
    (simp_all add: length_cons_step)

lemma joined_empty:
  assumes "sync_inv s" "joined s" "cons s \<noteq> []"
  shows "data (buffer s) = []" "production_is_finished (buffer s)"
proof -
  from assms(2,3) have "CDone \<in> set (cons s)"
    by (cases "cons s") (simp_all add: joined_def)
  with assms(1) show "data (buffer s) = []" "production_is_finished (buffer s)"
    by (simp_all add: sync_inv_def done_inv_def)
qed

lemma joined_inflight:
  assumes "joined s"
  shows "inflight (cons s) = []"
proof -
  have "\<forall>pc\<in>set (cons s). held pc = []"
    using assms by (auto simp: joined_def list_all_iff)
  then show ?thesis by (simp add: inflight_def)
qed

lemma joined_outstanding:
  assumes "sync_inv s" "joined s" "cons s \<noteq> []"
  shows "outstanding s = {#}"
  using joined_empty(1) [OF assms] joined_inflight [OF assms(2)] assms(2)
  by (simp add: outstanding_def joined_def)

lemma results_after_join:
  assumes "permuting shuffle" "length r0 = nat DATA_LENGTH" "0 < n"
    "run sched (init n (random_permutation shuffle DATA_LENGTH) r0) = Some (evs, s)"
    "joined s" "0 \<le> x" "x < DATA_LENGTH"
  shows "results s ! nat x = fib_num (nat (DATA_START + x))"
proof -
  let ?p = "random_permutation shuffle DATA_LENGTH"
  have sp: "set ?p = {0..DATA_LENGTH - 1}"
    by (rule random_permutation_set [OF assms(1)])
  have si: "sync_inv s" by (rule reachable_inv(1) [OF assms(4)])
  have st: "store_inv ?p s"
    using reachable_inv(2) [OF assms(4)] assms(2) sp by simp
  have "length (cons s) = n"
    using length_cons_run [OF assms(4)] by (simp add: init_def)
  with assms(3) have ne: "cons s \<noteq> []" by auto
  have "outstanding s = {#}" by (rule joined_outstanding [OF si assms(5) ne])
  moreover have "x \<in> set ?p" using sp assms(6,7) by simp
  ultimately have "fibonacci (DATA_START + x) = Inr (results s ! nat x)"
    using st by (simp add: store_inv_def)
  moreover have "fibonacci (DATA_START + x) = Inr (fib_num (nat (DATA_START + x)))"
    using assms(6,7) by (intro fibonacci_key) simp_all
  ultimately show ?thesis by simp
qed

section \<open>The closed flag\<close>

lemma flag_step:
  assumes "step a s = Some (e, s')" "production_is_finished (buffer s)"
  shows "production_is_finished (buffer s')"
  using assms by (cases rule: step_cases) (simp_all add: buffer_ops)

text \<open>
  Claim C5. The closed flag is monotone: from any state in which
  \<open>production_is_finished\<close> is true, whatever the threads do next (any schedule of
  producer steps, consumer steps and spurious wake-ups), the flag is still true in the
  state reached. No step of the program writes \<open>false\<close> to it.
\<close>

theorem closed_flag_monotone:
  "run sched s = Some (evs, s') \<Longrightarrow> production_is_finished (buffer s) \<Longrightarrow>
   production_is_finished (buffer s')"
proof (induction sched arbitrary: s evs)
  case Nil
  then show ?case by simp
next
  case (Cons a as)
  from Cons.prems(1) obtain e s1 es where
    st: "step a s = Some (e, s1)" and r: "run as s1 = Some (es, s')"
    by (rule run_ConsE)
  from st Cons.prems(2) have "production_is_finished (buffer s1)" by (rule flag_step)
  with r show ?case by (rule Cons.IH)
qed

theorem closed_flag_monotone_witness:
  "production_is_finished (buffer closed_state) \<and>
   run [Consume 0, Consume 0, Consume 0] closed_state =
     Some ([Locked (ConsumerThread 0), Passed 0, PopItem 0 (entry_of 0)],
       \<lparr>buffer = \<lparr>mutex = None, data = [], production_is_finished = True\<rparr>,
        prod = PDone, cons = [CWork (entry_of 0)], results = [0], fault = None\<rparr>) \<and>
   production_is_finished (buffer
       \<lparr>buffer = \<lparr>mutex = None, data = [], production_is_finished = True\<rparr>,
        prod = PDone, cons = [CWork (entry_of 0)], results = [0], fault = None\<rparr>)"
proof -
  have h: "production_is_finished (buffer closed_state)"
    by (simp add: closed_state_def)
  show ?thesis
    using h closed_flag_monotone [OF closed_state_run h] closed_state_run by simp
qed

section \<open>The results after the joins\<close>

lemma fib_num_table: "map (\<lambda>i. fib_num (30 + i)) [0..<15] = fib_table"
  unfolding fib_table_def by code_simp

lemma fibonacci_table:
  "map fibonacci [30, 31, 32, 33, 34, 35, 36, 37, 38, 39, 40, 41, 42, 43, 44] = map Inr fib_table"
proof -
  have "fibonacci (DATA_START + int i) = Inr (fib_table ! i)" if "i < 15" for i
  proof -
    have "fibonacci (DATA_START + int i) = Inr (fib_num (nat (DATA_START + int i)))"
      using that by (intro fibonacci_key) (simp_all add: DATA_LENGTH_def DATA_END_def DATA_START_def)
    also have "nat (DATA_START + int i) = 30 + i" by (simp add: DATA_START_def)
    also have "fib_num (30 + i) = map (\<lambda>i. fib_num (30 + i)) [0..<15] ! i"
      using that by simp
    finally show ?thesis by (simp only: fib_num_table)
  qed
  from this [of 0] this [of 1] this [of 2] this [of 3] this [of 4] this [of 5] this [of 6]
    this [of 7] this [of 8] this [of 9] this [of 10] this [of 11] this [of 12] this [of 13]
    this [of 14]
  show ?thesis by (simp add: DATA_START_def fib_table_def)
qed

lemma main_permutation: "random_permutation rev DATA_LENGTH =
    [14, 13, 12, 11, 10, 9, 8, 7, 6, 5, 4, 3, 2, 1, 0]"
  by (simp add: random_permutation_def fill_loop_upto DATA_LENGTH_def DATA_END_def
      DATA_START_def upto_rec1)

lemma main_schedule_run:
  "exec main_schedule (main_init rev (replicate 15 0)) = Some main_final"
  using fibonacci_table
  by (simp add: exec_def main_schedule_def main_init_def main_permutation init_def
      NUM_CONSUMERS_def main_final_def step_def producer_step_def consumer_step_def
      buffer_ops notify_all_def entry_of_def DATA_START_def fib_table_def
      eval_nat_numeral upt_rec)

lemma results_table:
  assumes "permuting shuffle" "length r0 = nat DATA_LENGTH"
    "exec sched (main_init shuffle r0) = Some s" "joined s"
  shows "results s = fib_table"
proof -
  from assms(3) obtain evs where
    r: "run sched (init NUM_CONSUMERS (random_permutation shuffle DATA_LENGTH) r0) = Some (evs, s)"
    unfolding main_init_def by (rule exec_SomeE)
  let ?p = "random_permutation shuffle DATA_LENGTH"
  have "set ?p = {0..DATA_LENGTH - 1}" by (rule random_permutation_set [OF assms(1)])
  with reachable_inv(2) [OF r] assms(2) have "store_inv ?p s" by simp
  then have len: "length (results s) = 15"
    by (simp add: store_inv_def DATA_LENGTH_def DATA_END_def DATA_START_def)
  have n: "0 < NUM_CONSUMERS" by (simp add: NUM_CONSUMERS_def)
  have "results s ! i = fib_table ! i" if "i < 15" for i
  proof -
    have "results s ! nat (int i) = fib_num (nat (DATA_START + int i))"
      using that
      by (intro results_after_join [OF assms(1,2) n r assms(4)])
        (simp_all add: DATA_LENGTH_def DATA_END_def DATA_START_def)
    also have "nat (DATA_START + int i) = 30 + i" by (simp add: DATA_START_def)
    also have "fib_num (30 + i) = map (\<lambda>i. fib_num (30 + i)) [0..<15] ! i"
      using that by simp
    finally show ?thesis by (simp only: fib_num_table nat_int)
  qed
  with len show ?thesis by (intro nth_equalityI) (simp_all add: fib_table_def)
qed

lemma check_results_table: "check_results fib_table"
  using fibonacci_table
  by (simp add: check_results_def fib_table_def DATA_START_def DATA_LENGTH_def DATA_END_def
      int_add_def INT_MIN_def INT_MAX_def eval_nat_numeral upt_rec)

text \<open>
  Claim C1. Whatever permutation the shuffle yields and whatever the \<open>results\<close> array
  held at first, in every state of \<open>main\<close> in which all eight consumers and the producer
  can be joined, slot \<open>i\<close> of \<open>results\<close> holds \<open>fibonacci (30 + i)\<close> for every \<open>i\<close> below
  15: slot 0 is 832040, slot 1 is 1346269, every later slot is the sum of the two before
  it, and the assertions of \<open>main\<close> after the joins hold.
\<close>

theorem results_after_joins:
  assumes "permuting shuffle" "length r0 = nat DATA_LENGTH"
    "exec sched (main_init shuffle r0) = Some s" "joined s"
  shows "(\<forall>i<15. fibonacci (DATA_START + int i) = Inr (results s ! i)) \<and>
    results s ! 0 = 832040 \<and> results s ! 1 = 1346269 \<and>
    (\<forall>i. 2 \<le> i \<and> i < 15 \<longrightarrow> results s ! i = results s ! (i - 1) + results s ! (i - 2)) \<and>
    check_results (results s)"
proof -
  have t: "results s = fib_table" by (rule results_table [OF assms])
  have a: "\<forall>i<15. fibonacci (DATA_START + int i) = Inr (fib_table ! i)"
  proof (intro allI impI)
    fix i :: nat assume "i < 15"
    then have "i \<in> {0, 1, 2, 3, 4, 5, 6, 7, 8, 9, 10, 11, 12, 13, 14}"
      by (simp only: insert_iff empty_iff) arith
    then show "fibonacci (DATA_START + int i) = Inr (fib_table ! i)"
      using fibonacci_table by (auto simp: DATA_START_def fib_table_def)
  qed
  have b: "\<forall>i. 2 \<le> i \<and> i < 15 \<longrightarrow> fib_table ! i = fib_table ! (i - 1) + fib_table ! (i - 2)"
  proof (intro allI impI)
    fix i :: nat assume "2 \<le> i \<and> i < 15"
    then have "i \<in> {2, 3, 4, 5, 6, 7, 8, 9, 10, 11, 12, 13, 14}"
      by (simp only: insert_iff empty_iff) arith
    then show "fib_table ! i = fib_table ! (i - 1) + fib_table ! (i - 2)"
      by (auto simp: fib_table_def)
  qed
  have c: "fib_table ! 0 = 832040" "fib_table ! 1 = 1346269"
    by (simp_all add: fib_table_def)
  show ?thesis unfolding t using a b c check_results_table by blast
qed

theorem results_after_joins_witness:
  "permuting rev \<and> length (replicate 15 (0::int)) = nat DATA_LENGTH \<and>
   exec main_schedule (main_init rev (replicate 15 0)) = Some main_final \<and>
   joined main_final \<and>
   fibonacci (DATA_START + int 14) = Inr (results main_final ! 14) \<and>
   results main_final ! 0 = 832040 \<and> results main_final ! 1 = 1346269 \<and>
   results main_final ! 14 = results main_final ! 13 + results main_final ! 12 \<and>
   check_results (results main_final)"
proof -
  have h1: "permuting rev" by (simp add: permuting_def)
  have h2: "length (replicate 15 (0::int)) = nat DATA_LENGTH"
    by (simp add: DATA_LENGTH_def DATA_END_def DATA_START_def)
  have h4: "joined main_final" by (simp add: joined_def main_final_def list_all_iff)
  note th = results_after_joins [OF h1 h2 main_schedule_run h4]
  from th have A: "\<forall>i<15. fibonacci (DATA_START + int i) = Inr (results main_final ! i)"
    by (rule conjunct1)
  from th have B: "\<forall>i. 2 \<le> i \<and> i < 15 \<longrightarrow>
      results main_final ! i = results main_final ! (i - 1) + results main_final ! (i - 2)"
    by blast
  have "fibonacci (DATA_START + int 14) = Inr (results main_final ! 14)"
    using A [rule_format, of 14] by simp
  moreover have "results main_final ! 14 = results main_final ! 13 + results main_final ! 12"
    using B [rule_format, of 14] by simp
  ultimately show ?thesis using h1 h2 h4 main_schedule_run th by blast
qed

section \<open>States of main\<close>

lemma main_store_inv:
  assumes "permuting shuffle" "length r0 = nat DATA_LENGTH"
    "exec sched (main_init shuffle r0) = Some s"
  shows "store_inv (random_permutation shuffle DATA_LENGTH) s"
proof -
  from assms(3) obtain evs where
    r: "run sched (init NUM_CONSUMERS (random_permutation shuffle DATA_LENGTH) r0) = Some (evs, s)"
    unfolding main_init_def by (rule exec_SomeE)
  have "set (random_permutation shuffle DATA_LENGTH) = {0..DATA_LENGTH - 1}"
    by (rule random_permutation_set [OF assms(1)])
  with reachable_inv(2) [OF r] assms(2) show ?thesis by simp
qed

lemma main_sync_inv:
  assumes "exec sched (main_init shuffle r0) = Some s"
  shows "sync_inv s"
proof -
  from assms obtain evs where
    r: "run sched (init NUM_CONSUMERS (random_permutation shuffle DATA_LENGTH) r0) = Some (evs, s)"
    unfolding main_init_def by (rule exec_SomeE)
  show ?thesis by (rule reachable_inv(1) [OF r])
qed

lemma main_work_key:
  assumes "permuting shuffle" "length r0 = nat DATA_LENGTH"
    "exec sched (main_init shuffle r0) = Some s" "k < length (cons s)" "cons s ! k = CWork be"
  shows "number be = DATA_START + position be" "0 \<le> position be"
    "position be < DATA_LENGTH" "fibonacci (number be) = Inr (fib_num (nat (number be)))"
proof -
  let ?p = "random_permutation shuffle DATA_LENGTH"
  have st: "store_inv ?p s" by (rule main_store_inv [OF assms(1-3)])
  from work_entry [OF st assms(4,5)] obtain x where x: "x \<in> set ?p" "be = entry_of x"
    by auto
  have "set ?p = {0..DATA_LENGTH - 1}" by (rule random_permutation_set [OF assms(1)])
  with x(1) have r: "0 \<le> x" "x \<le> DATA_LENGTH - 1" by auto
  from x(2) show "number be = DATA_START + position be" by (simp add: entry_of_def)
  from x(2) r show "0 \<le> position be" "position be < DATA_LENGTH"
    by (simp_all add: entry_of_def)
  from fibonacci_key [OF r] x(2)
  show "fibonacci (number be) = Inr (fib_num (nat (number be)))"
    by (simp add: entry_of_def)
qed

lemma working_state_run:
  "exec (replicate 3 (Produce None) @ replicate 3 (Consume 0))
     (main_init rev (replicate 15 0)) = Some working_state"
  by (simp add: exec_def main_init_def main_permutation init_def NUM_CONSUMERS_def
      working_state_def step_def producer_step_def consumer_step_def buffer_ops
      eval_nat_numeral)

section \<open>The compute function in the program\<close>

lemma fib_num_45: "fib_num 45 = 1134903170"
  by code_simp

lemma fibonacci_47: "fibonacci 47 = Inl SignedOverflow"
proof -
  have a: "fibonacci 46 = Inr (fib_num 46)"
    using fibonacci_fib_num [of 46] by (simp add: fib_num_46 INT_MAX_def)
  have b: "fibonacci 45 = Inr (fib_num 45)"
    using fibonacci_fib_num [of 45] by (simp add: fib_num_45 INT_MAX_def)
  show ?thesis
    using a b
    by (subst fibonacci.simps) (simp add: fib_num_46 fib_num_45 int_add_def INT_MAX_def)
qed

lemma fibonacci_overflow: "47 \<le> n \<Longrightarrow> fibonacci n = Inl SignedOverflow"
proof (induction n rule: fibonacci.induct)
  case (1 n)
  show ?case
  proof (cases "n = 47")
    case True
    then show ?thesis by (simp add: fibonacci_47)
  next
    case False
    with "1.prems" have "47 \<le> n - 1" by simp
    with "1.IH"(1) "1.prems" have "fibonacci (n - 1) = Inl SignedOverflow" by simp
    with "1.prems" show ?thesis by (subst fibonacci.simps) simp
  qed
qed

lemma fibonacci_in_range:
  assumes "1 \<le> n" "n \<le> 46"
  shows "fibonacci n = Inr (fib_num (nat n))"
proof -
  from assms have "nat n \<le> 46" by arith
  then have "fib_num (nat n) \<le> fib_num 46" by (rule fib_num_mono)
  then have "fib_num (nat n) \<le> INT_MAX" by (simp add: fib_num_46 INT_MAX_def)
  with assms(1) show ?thesis by (intro fibonacci_fib_num) simp_all
qed

lemma fibonacci_result_iff: "(\<exists>v. fibonacci n = Inr v) = (1 \<le> n \<and> n \<le> 46)"
proof (cases "1 \<le> n")
  case False
  then have "fibonacci n = Inl AssertionFailed" by (subst fibonacci.simps) simp
  with False show ?thesis by simp
next
  case True
  show ?thesis
  proof (cases "n \<le> 46")
    case le: True
    with True fibonacci_in_range [of n] show ?thesis by simp
  next
    case gt: False
    then have "fibonacci n = Inl SignedOverflow" by (intro fibonacci_overflow) simp
    with gt show ?thesis by simp
  qed
qed

text \<open>
  Claim C10 as stated fails on the code: \<open>fibonacci\<close> does not yield a result for every
  \<open>n\<close> from 1 on. At \<open>n = 47\<close> the addition of the results for 46 and 45
  (1836311903 + 1134903170) leaves the range of \<open>int\<close>, which is undefined behaviour.
\<close>

theorem fibonacci_overflow_counterexample:
  "(1::int) \<le> 47 \<and> fibonacci 47 = Inl SignedOverflow \<and> \<not> (\<exists>v. fibonacci 47 = Inr v)"
  by (simp add: fibonacci_47)

text \<open>
  Claim C10, amended. \<open>fibonacci\<close> yields a result exactly for \<open>n\<close> from 1 to 46: there it
  returns the Fibonacci number, 1 for \<open>n\<close> up to 2. Its recursion on \<open>n - 1\<close> and
  \<open>n - 2\<close> terminates for every \<open>n\<close> (the measure \<open>nat n\<close> of the definition), and for no
  \<open>n\<close> from 1 on does its assertion fire, in no recursive call; from 47 on the addition
  overflows. In every state \<open>main\<close> can reach nothing has aborted, and every entry a
  consumer is about to compute has the key \<open>DATA_START + position\<close> with a position from
  0 to \<open>DATA_LENGTH - 1\<close>, so the key is at least 1 and at most 46: the assertion does not
  fire and the result is the Fibonacci number of the key.
\<close>

theorem fibonacci_defined_up_to_46:
  "(1 \<le> n \<and> n \<le> 46 \<longrightarrow> fibonacci n = Inr (fib_num (nat n))) \<and>
   (1 \<le> n \<and> n \<le> 2 \<longrightarrow> fibonacci n = Inr 1) \<and>
   (1 \<le> n \<longrightarrow> fibonacci n \<noteq> Inl AssertionFailed) \<and>
   (47 \<le> n \<longrightarrow> fibonacci n = Inl SignedOverflow) \<and>
   ((\<exists>v. fibonacci n = Inr v) = (1 \<le> n \<and> n \<le> 46)) \<and>
   (permuting shuffle \<and> length r0 = nat DATA_LENGTH \<and>
    exec sched (main_init shuffle r0) = Some s \<longrightarrow>
      fault s = None \<and>
      (\<forall>k be. k < length (cons s) \<and> cons s ! k = CWork be \<longrightarrow>
         number be = DATA_START + position be \<and> 0 \<le> position be \<and>
         position be < DATA_LENGTH \<and> 1 \<le> number be \<and> number be \<le> 46 \<and>
         fibonacci (number be) = Inr (fib_num (nat (number be))) \<and>
         fibonacci (number be) \<noteq> Inl AssertionFailed))"
proof (intro conjI impI allI)
  assume "1 \<le> n \<and> n \<le> 46"
  then show "fibonacci n = Inr (fib_num (nat n))" by (intro fibonacci_in_range) simp_all
next
  assume "1 \<le> n \<and> n \<le> 2"
  then show "fibonacci n = Inr 1" by (subst fibonacci.simps) simp
next
  assume "1 \<le> n"
  then show "fibonacci n \<noteq> Inl AssertionFailed" using fibonacci_assert by blast
next
  assume "47 \<le> n"
  then show "fibonacci n = Inl SignedOverflow" by (rule fibonacci_overflow)
next
  show "(\<exists>v. fibonacci n = Inr v) = (1 \<le> n \<and> n \<le> 46)" by (rule fibonacci_result_iff)
next
  assume h: "permuting shuffle \<and> length r0 = nat DATA_LENGTH \<and>
    exec sched (main_init shuffle r0) = Some s"
  then have "store_inv (random_permutation shuffle DATA_LENGTH) s"
    using main_store_inv [of shuffle r0 sched s] by simp
  then show "fault s = None" by (simp add: store_inv_def)
next
  fix k be
  assume h: "permuting shuffle \<and> length r0 = nat DATA_LENGTH \<and>
    exec sched (main_init shuffle r0) = Some s"
    and w: "k < length (cons s) \<and> cons s ! k = CWork be"
  from h w have key: "number be = DATA_START + position be" "0 \<le> position be"
    "position be < DATA_LENGTH"
    "fibonacci (number be) = Inr (fib_num (nat (number be)))"
    using main_work_key [of shuffle r0 sched s k be] by simp_all
  from key show "number be = DATA_START + position be" "0 \<le> position be"
    "position be < DATA_LENGTH" "1 \<le> number be" "number be \<le> 46"
    "fibonacci (number be) = Inr (fib_num (nat (number be)))"
    "fibonacci (number be) \<noteq> Inl AssertionFailed"
    by (simp_all add: DATA_START_def DATA_LENGTH_def DATA_END_def)
qed

theorem fibonacci_defined_up_to_46_witness:
  "(1::int) \<le> 2 \<and> (2::int) \<le> 46 \<and> fibonacci 2 = Inr (fib_num (nat 2)) \<and>
   fibonacci 2 = Inr 1 \<and> fibonacci 2 \<noteq> Inl AssertionFailed \<and>
   (47::int) \<le> 47 \<and> fibonacci 47 = Inl SignedOverflow \<and>
   permuting rev \<and> length (replicate 15 (0::int)) = nat DATA_LENGTH \<and>
   exec (replicate 3 (Produce None) @ replicate 3 (Consume 0))
     (main_init rev (replicate 15 0)) = Some working_state \<and>
   fault working_state = None \<and>
   0 < length (cons working_state) \<and> cons working_state ! 0 = CWork (entry_of 14) \<and>
   number (entry_of 14) = DATA_START + position (entry_of 14) \<and>
   0 \<le> position (entry_of 14) \<and> position (entry_of 14) < DATA_LENGTH \<and>
   1 \<le> number (entry_of 14) \<and> number (entry_of 14) \<le> 46 \<and>
   fibonacci (number (entry_of 14)) = Inr (fib_num (nat (number (entry_of 14)))) \<and>
   fibonacci (number (entry_of 14)) \<noteq> Inl AssertionFailed"
proof -
  have h1: "permuting rev" by (simp add: permuting_def)
  have h2: "length (replicate 15 (0::int)) = nat DATA_LENGTH"
    by (simp add: DATA_LENGTH_def DATA_END_def DATA_START_def)
  have w: "0 < length (cons working_state) \<and> cons working_state ! 0 = CWork (entry_of 14)"
    by (simp add: working_state_def)
  note th = fibonacci_defined_up_to_46 [of 2 rev "replicate 15 0"
      "replicate 3 (Produce None) @ replicate 3 (Consume 0)" working_state]
  note th47 = fibonacci_defined_up_to_46 [of 47 rev "replicate 15 0"
      "replicate 3 (Produce None) @ replicate 3 (Consume 0)" working_state]
  have n1: "(1::int) \<le> 2" and n2: "(2::int) \<le> 2" and n3: "(2::int) \<le> 46"
    and n4: "(47::int) \<le> 47" by simp_all
  from th n1 n2 n3 have a: "fibonacci 2 = Inr (fib_num (nat 2))" "fibonacci 2 = Inr 1"
    "fibonacci 2 \<noteq> Inl AssertionFailed" by blast+
  from th47 n4 have o: "fibonacci 47 = Inl SignedOverflow" by blast
  from th h1 h2 working_state_run have b: "fault working_state = None"
    and c: "\<forall>k be. k < length (cons working_state) \<and> cons working_state ! k = CWork be \<longrightarrow>
         number be = DATA_START + position be \<and> 0 \<le> position be \<and>
         position be < DATA_LENGTH \<and> 1 \<le> number be \<and> number be \<le> 46 \<and>
         fibonacci (number be) = Inr (fib_num (nat (number be))) \<and>
         fibonacci (number be) \<noteq> Inl AssertionFailed" by blast+
  from c [rule_format, of 0 "entry_of 14"] w
  have d: "number (entry_of 14) = DATA_START + position (entry_of 14) \<and>
   0 \<le> position (entry_of 14) \<and> position (entry_of 14) < DATA_LENGTH \<and>
   1 \<le> number (entry_of 14) \<and> number (entry_of 14) \<le> 46 \<and>
   fibonacci (number (entry_of 14)) = Inr (fib_num (nat (number (entry_of 14)))) \<and>
   fibonacci (number (entry_of 14)) \<noteq> Inl AssertionFailed" by blast
  show ?thesis using a o b d w h1 h2 n1 n3 n4 working_state_run by blast
qed

section \<open>Pushes and pops of a run\<close>

lemma pushes_snoc: "pushes (es @ [e]) = pushes es @ pushed e"
  by (simp add: pushes_def)

lemma pops_snoc: "pops (es @ [e]) = pops es @ popped e"
  by (simp add: pops_def)

lemma push_trace_step:
  assumes "step a s = Some (e, s')"
  shows "pushed e @ map entry_of (remaining (prod s')) = map entry_of (remaining (prod s))"
  using assms
proof (cases rule: step_cases)
  case (st_lockP w rest)
  then show ?thesis by (cases rest) simp_all
next
  case (st_pop_empty k)
  then show ?thesis by (cases "production_is_finished (buffer s)") simp_all
qed simp_all

lemma pop_trace_step:
  assumes "step a s = Some (e, s')"
  shows "mset (pushed e) + mset (data (buffer s)) = mset (popped e) + mset (data (buffer s'))"
  using assms
proof (cases rule: step_cases)
  case (st_pop_empty k)
  then show ?thesis by (cases "production_is_finished (buffer s)") (simp_all add: buffer_ops)
qed (simp_all add: buffer_ops)

lemma push_trace:
  assumes "run sched (init n p r0) = Some (evs, s)"
  shows "pushes evs @ map entry_of (remaining (prod s)) = map entry_of p"
proof (rule run_invariant [OF assms,
      where P = "\<lambda>es s. pushes es @ map entry_of (remaining (prod s)) = map entry_of p"])
  show "pushes [] @ map entry_of (remaining (prod (init n p r0))) = map entry_of p"
    by (simp add: pushes_def init_def)
next
  fix es s1 a e s2
  assume "pushes es @ map entry_of (remaining (prod s1)) = map entry_of p"
    and "step a s1 = Some (e, s2)"
  then show "pushes (es @ [e]) @ map entry_of (remaining (prod s2)) = map entry_of p"
    using push_trace_step [of a s1 e s2] by (simp add: pushes_snoc)
qed

lemma pop_trace:
  assumes "run sched (init n p r0) = Some (evs, s)"
  shows "mset (pushes evs) = mset (pops evs) + mset (data (buffer s))"
proof (rule run_invariant [OF assms,
      where P = "\<lambda>es s. mset (pushes es) = mset (pops es) + mset (data (buffer s))"])
  show "mset (pushes []) = mset (pops []) + mset (data (buffer (init n p r0)))"
    by (simp add: pushes_def pops_def init_def)
next
  fix es s1 a e s2
  assume "mset (pushes es) = mset (pops es) + mset (data (buffer s1))"
    and "step a s1 = Some (e, s2)"
  then show "mset (pushes (es @ [e])) = mset (pops (es @ [e])) + mset (data (buffer s2))"
    using pop_trace_step [of a s1 e s2] by (simp add: pushes_snoc pops_snoc ac_simps)
qed

lemma done_step:
  assumes "step a s = Some (e, s')" "j < length (cons s')" "cons s' ! j = CDone"
  shows "cons s ! j = CDone \<or> e = PopClosed j"
  using assms
proof (cases rule: step_cases)
  case (st_pop_empty k)
  with assms(2,3) show ?thesis
    by (cases "production_is_finished (buffer s)")
      (auto simp: nth_update_cases split: if_splits)
qed (auto simp: nth_update_cases notify_all_def split: if_splits)

lemma closed_trace:
  assumes "run sched (init n p r0) = Some (evs, s)"
  shows "\<forall>j<length (cons s). cons s ! j = CDone \<longrightarrow> PopClosed j \<in> set evs"
proof (rule run_invariant [OF assms,
      where P = "\<lambda>es s. \<forall>j<length (cons s). cons s ! j = CDone \<longrightarrow> PopClosed j \<in> set es"])
  show "\<forall>j<length (cons (init n p r0)). cons (init n p r0) ! j = CDone \<longrightarrow> PopClosed j \<in> set []"
    by (simp add: init_def)
next
  fix es s1 a e s2
  assume h: "\<forall>j<length (cons s1). cons s1 ! j = CDone \<longrightarrow> PopClosed j \<in> set es"
    and st: "step a s1 = Some (e, s2)"
  show "\<forall>j<length (cons s2). cons s2 ! j = CDone \<longrightarrow> PopClosed j \<in> set (es @ [e])"
  proof (intro allI impI)
    fix j assume j: "j < length (cons s2)" "cons s2 ! j = CDone"
    from done_step [OF st j] h j(1) length_cons_step [OF st]
    show "PopClosed j \<in> set (es @ [e])" by auto
  qed
qed

lemma popped_in_pops: "PopItem k be \<in> set evs \<Longrightarrow> be \<in> set (pops evs)"
  by (force simp: pops_def)

lemma pop_once:
  assumes "distinct (pops evs)" "PopItem k be \<in> set evs" "PopItem k' be \<in> set evs"
  shows "k = k'"
  using assms
proof (induction evs)
  case Nil
  then show ?case by simp
next
  case (Cons e es)
  from Cons.prems(1) have d: "distinct (pops es)" and
    dis: "set (popped e) \<inter> set (pops es) = {}"
    by (simp_all add: pops_def)
  show ?case
  proof (cases "PopItem k be \<in> set es \<and> PopItem k' be \<in> set es")
    case True
    with Cons.IH d show ?thesis by simp
  next
    case False
    then have "e = PopItem k be \<or> e = PopItem k' be" using Cons.prems(2,3) by auto
    then have "be \<in> set (popped e)" by auto
    with dis have "be \<notin> set (pops es)" by auto
    then have "PopItem k be \<notin> set es" "PopItem k' be \<notin> set es"
      using popped_in_pops by blast+
    with Cons.prems(2,3) show ?thesis by auto
  qed
qed

lemma in_pops: "be \<in> set (pops evs) \<Longrightarrow> \<exists>k. PopItem k be \<in> set evs"
proof (induction evs)
  case Nil
  then show ?case by (simp add: pops_def)
next
  case (Cons e es)
  then show ?case by (cases e) (auto simp: pops_def)
qed

lemma small_run:
  "run small_schedule (init 2 [1, 0] (replicate 15 0)) = Some (small_events, small_final)"
  using fibonacci_table
  by (simp add: small_schedule_def small_events_def small_final_def init_def step_def
      producer_step_def consumer_step_def buffer_ops notify_all_def entry_of_def
      DATA_START_def fib_table_def eval_nat_numeral)

text \<open>
  Claim C3. No loss and no duplication, for any number of consumers \<open>n\<close>, any list \<open>p\<close> of
  positions given to the producer and any schedule. At every moment the entries pushed so
  far are exactly the entries popped so far together with those still in the queue, and
  the entries pushed so far followed by those the producer has yet to push are the entries
  of \<open>p\<close> in order. Once all threads can be joined (with at least one consumer), every
  entry of \<open>p\<close> has been pushed, the pops that returned an entry are as many as the pushes
  (\<open>length p\<close>) and returned the same entries, every consumer has seen the queue empty and
  closed, and when the positions are distinct every entry was popped by exactly one
  consumer.
\<close>

theorem no_loss_no_duplication:
  assumes "run sched (init n p r0) = Some (evs, s)"
  shows "mset (pushes evs) = mset (pops evs) + mset (data (buffer s)) \<and>
    pushes evs @ map entry_of (remaining (prod s)) = map entry_of p \<and>
    (joined s \<and> 0 < n \<longrightarrow>
       pushes evs = map entry_of p \<and> length (pushes evs) = length p \<and>
       mset (pops evs) = mset (pushes evs) \<and> length (pops evs) = length p \<and>
       (\<forall>k<n. PopClosed k \<in> set evs) \<and>
       (distinct p \<longrightarrow>
          (\<forall>x\<in>set p. \<exists>k. PopItem k (entry_of x) \<in> set evs \<and>
             (\<forall>k'. PopItem k' (entry_of x) \<in> set evs \<longrightarrow> k' = k))))"
proof (intro conjI impI)
  show a: "mset (pushes evs) = mset (pops evs) + mset (data (buffer s))"
    by (rule pop_trace [OF assms])
  show b: "pushes evs @ map entry_of (remaining (prod s)) = map entry_of p"
    by (rule push_trace [OF assms])
  assume j: "joined s \<and> 0 < n"
  have len: "length (cons s) = n" using length_cons_run [OF assms] by (simp add: init_def)
  with j have ne: "cons s \<noteq> []" by auto
  have si: "sync_inv s" by (rule reachable_inv(1) [OF assms])
  have d: "data (buffer s) = []" using joined_empty(1) [OF si _ ne] j by simp
  from j b show c: "pushes evs = map entry_of p" by (simp add: joined_def)
  then show "length (pushes evs) = length p" by simp
  from a d show e: "mset (pops evs) = mset (pushes evs)" by simp
  from e c have "size (mset (pops evs)) = size (mset (map entry_of p))" by simp
  then show "length (pops evs) = length p" by simp
  show "\<forall>k<n. PopClosed k \<in> set evs"
  proof (intro allI impI)
    fix k assume "k < n"
    with len j have "k < length (cons s)" "cons s ! k = CDone"
      by (simp_all add: joined_def list_all_length)
    with closed_trace [OF assms] show "PopClosed k \<in> set evs" by simp
  qed
  assume dp: "distinct p"
  have "distinct (map entry_of p)"
    using dp by (simp add: distinct_map inj_on_def entry_of_def)
  with c e have dpo: "distinct (pops evs)" by (metis mset_eq_imp_distinct_iff)
  show "\<forall>x\<in>set p. \<exists>k. PopItem k (entry_of x) \<in> set evs \<and>
             (\<forall>k'. PopItem k' (entry_of x) \<in> set evs \<longrightarrow> k' = k)"
  proof
    fix x assume "x \<in> set p"
    then have "entry_of x \<in># mset (pushes evs)" using c by simp
    with e have "entry_of x \<in> set (pops evs)" by (metis set_mset_mset)
    then obtain k where k: "PopItem k (entry_of x) \<in> set evs" using in_pops by blast
    with pop_once [OF dpo] show "\<exists>k. PopItem k (entry_of x) \<in> set evs \<and>
             (\<forall>k'. PopItem k' (entry_of x) \<in> set evs \<longrightarrow> k' = k)" by blast
  qed
qed

theorem no_loss_no_duplication_witness:
  "run small_schedule (init 2 [1, 0] (replicate 15 0)) = Some (small_events, small_final) \<and>
   joined small_final \<and> (0::nat) < 2 \<and> distinct [1, 0::int] \<and>
   mset (pushes small_events) = mset (pops small_events) + mset (data (buffer small_final)) \<and>
   pushes small_events = map entry_of [1, 0] \<and>
   mset (pops small_events) = mset (pushes small_events) \<and>
   length (pops small_events) = length [1, 0::int] \<and>
   pops small_events = [entry_of 1, entry_of 0] \<and>
   PopClosed 0 \<in> set small_events \<and> PopClosed 1 \<in> set small_events \<and>
   PopItem 1 (entry_of 1) \<in> set small_events \<and> PopItem 0 (entry_of 1) \<notin> set small_events"
proof -
  have j: "joined small_final \<and> (0::nat) < 2"
    by (simp add: joined_def small_final_def)
  have d: "distinct [1, 0::int]" by simp
  note th = no_loss_no_duplication [OF small_run]
  from th have a: "mset (pushes small_events) =
      mset (pops small_events) + mset (data (buffer small_final))"
    by (rule conjunct1)
  from th j have b: "pushes small_events = map entry_of [1, 0]"
    "mset (pops small_events) = mset (pushes small_events)"
    "length (pops small_events) = length [1, 0::int]"
    "\<forall>k<2. PopClosed k \<in> set small_events"
    by blast+
  from b(4) have c: "PopClosed 0 \<in> set small_events" "PopClosed 1 \<in> set small_events"
    by simp_all
  have e: "pops small_events = [entry_of 1, entry_of 0]"
    "PopItem 1 (entry_of 1) \<in> set small_events" "PopItem 0 (entry_of 1) \<notin> set small_events"
    by (simp_all add: small_events_def pops_def entry_of_def)
  show ?thesis using small_run j d a b(1-3) c e by blast
qed

section \<open>Writes to the result store\<close>

lemma written_state_run:
  "run (replicate 3 (Produce None) @ replicate 4 (Consume 0))
     (main_init rev (replicate 15 0)) = Some (written_events, written_state)"
  using fibonacci_table
  by (simp add: main_init_def main_permutation init_def NUM_CONSUMERS_def
      written_state_def written_events_def step_def producer_step_def consumer_step_def
      buffer_ops entry_of_def DATA_START_def fib_table_def eval_nat_numeral)

lemma event_safe:
  assumes "step a s = Some (e, s')" "store_inv p s" "set p \<subseteq> {0..DATA_LENGTH - 1}"
  shows "(\<forall>k f. e \<noteq> Aborted k f) \<and>
    (\<forall>k i v. e = Wrote k i v \<longrightarrow> 0 \<le> i \<and> i < DATA_LENGTH)"
proof -
  have "store_inv p s'" by (rule store_inv_step [OF assms])
  then have f: "fault s' = None" by (simp add: store_inv_def)
  have len: "int (length (results s)) = DATA_LENGTH"
    using assms(2) by (simp add: store_inv_def DATA_LENGTH_def DATA_END_def DATA_START_def)
  from assms(1) show ?thesis
  proof (cases rule: step_cases)
    case (st_write k be v)
    with len show ?thesis by simp
  next
    case (st_abort_fib k be f)
    with f show ?thesis by simp
  next
    case (st_abort_oob k be v)
    with f show ?thesis by simp
  qed simp_all
qed

lemma events_safe:
  assumes "run sched (init n p r0) = Some (evs, s)"
    "length r0 = nat DATA_LENGTH" "set p \<subseteq> {0..DATA_LENGTH - 1}"
  shows "(\<forall>k f. Aborted k f \<notin> set evs) \<and>
    (\<forall>k i v. Wrote k i v \<in> set evs \<longrightarrow> 0 \<le> i \<and> i < DATA_LENGTH)"
proof -
  let ?P = "\<lambda>es s. store_inv p s \<and> (\<forall>k f. Aborted k f \<notin> set es) \<and>
    (\<forall>k i v. Wrote k i v \<in> set es \<longrightarrow> 0 \<le> i \<and> i < DATA_LENGTH)"
  have "?P evs s"
  proof (rule run_invariant [OF assms(1), where P = ?P])
    show "?P [] (init n p r0)" using store_inv_init [OF assms(2)] by simp
  next
    fix es s1 a e s2
    assume h: "?P es s1" and st: "step a s1 = Some (e, s2)"
    from h have si: "store_inv p s1" by simp
    have "store_inv p s2" by (rule store_inv_step [OF st si assms(3)])
    moreover note event_safe [OF st si assms(3)]
    ultimately show "?P (es @ [e]) s2" using h by (simp add: all_conj_distrib) blast
  qed
  then show ?thesis by simp
qed

text \<open>
  Claim C9. Every write to \<open>results\<close> is in bounds. The permutation of \<open>main\<close> holds each
  integer from 0 to \<open>DATA_LENGTH - 1\<close> exactly once; the entries pushed so far, followed by
  those still to be pushed, are the entries of the permutation in order, so their positions
  are distinct and lie in the range; \<open>results\<close> keeps its length \<open>DATA_LENGTH\<close>; every
  write a consumer has made went to an index inside the array, and no run aborts (no
  write outside the array, no failed assertion, no overflow).
\<close>

theorem result_writes_in_bounds:
  assumes "permuting shuffle" "length r0 = nat DATA_LENGTH"
    "run sched (main_init shuffle r0) = Some (evs, s)"
  shows "mset (random_permutation shuffle DATA_LENGTH) = mset [0..DATA_LENGTH - 1] \<and>
    pushes evs @ map entry_of (remaining (prod s)) =
      map entry_of (random_permutation shuffle DATA_LENGTH) \<and>
    distinct (map position (pushes evs)) \<and>
    (\<forall>be\<in>set (pushes evs). 0 \<le> position be \<and> position be < DATA_LENGTH) \<and>
    int (length (results s)) = DATA_LENGTH \<and>
    (\<forall>k i v. Wrote k i v \<in> set evs \<longrightarrow> 0 \<le> i \<and> i < int (length (results s))) \<and>
    (\<forall>k f. Aborted k f \<notin> set evs) \<and> fault s = None"
proof -
  let ?p = "random_permutation shuffle DATA_LENGTH"
  from assms(3) have r: "run sched (init NUM_CONSUMERS ?p r0) = Some (evs, s)"
    by (simp add: main_init_def)
  have m: "mset ?p = mset [0..DATA_LENGTH - 1]" by (rule random_permutation_mset [OF assms(1)])
  have sp: "set ?p = {0..DATA_LENGTH - 1}" by (rule random_permutation_set [OF assms(1)])
  have dp: "distinct ?p" by (rule random_permutation_distinct [OF assms(1)])
  have pt: "pushes evs @ map entry_of (remaining (prod s)) = map entry_of ?p"
    by (rule push_trace [OF r])
  have pos: "map position (map entry_of ?p) = ?p" by (simp add: entry_of_def comp_def)
  have "map position (pushes evs) @ remaining (prod s) = ?p"
  proof -
    have "map position (pushes evs @ map entry_of (remaining (prod s))) = ?p"
      using pt pos by simp
    then show ?thesis by (simp add: entry_of_def comp_def)
  qed
  then have di: "distinct (map position (pushes evs))"
    and sub: "set (map position (pushes evs)) \<subseteq> set ?p"
    using dp by (metis distinct_append, metis set_append Un_upper1)
  have rg: "\<forall>be\<in>set (pushes evs). 0 \<le> position be \<and> position be < DATA_LENGTH"
    using sub sp by auto
  have st: "store_inv ?p s" using reachable_inv(2) [OF r] assms(2) sp by simp
  then have len: "int (length (results s)) = DATA_LENGTH" and f: "fault s = None"
    by (simp_all add: store_inv_def DATA_LENGTH_def DATA_END_def DATA_START_def)
  have ev: "(\<forall>k f. Aborted k f \<notin> set evs) \<and>
    (\<forall>k i v. Wrote k i v \<in> set evs \<longrightarrow> 0 \<le> i \<and> i < DATA_LENGTH)"
    using events_safe [OF r assms(2)] sp by simp
  show ?thesis using m pt di rg len f ev by simp
qed

theorem result_writes_in_bounds_witness:
  "permuting rev \<and> length (replicate 15 (0::int)) = nat DATA_LENGTH \<and>
   run (replicate 3 (Produce None) @ replicate 4 (Consume 0))
     (main_init rev (replicate 15 0)) = Some (written_events, written_state) \<and>
   mset (random_permutation rev DATA_LENGTH) = mset [0..DATA_LENGTH - 1] \<and>
   pushes written_events = [entry_of 14] \<and> entry_of 14 \<in> set (pushes written_events) \<and>
   0 \<le> position (entry_of 14) \<and> position (entry_of 14) < DATA_LENGTH \<and>
   int (length (results written_state)) = DATA_LENGTH \<and>
   Wrote 0 14 701408733 \<in> set written_events \<and>
   (0::int) \<le> 14 \<and> 14 < int (length (results written_state)) \<and>
   fault written_state = None"
proof -
  have h1: "permuting rev" by (simp add: permuting_def)
  have h2: "length (replicate 15 (0::int)) = nat DATA_LENGTH"
    by (simp add: DATA_LENGTH_def DATA_END_def DATA_START_def)
  note th = result_writes_in_bounds [OF h1 h2 written_state_run]
  have e: "pushes written_events = [entry_of 14]" "entry_of 14 \<in> set (pushes written_events)"
    "Wrote 0 14 701408733 \<in> set written_events"
    by (simp_all add: written_events_def pushes_def)
  from th have a: "mset (random_permutation rev DATA_LENGTH) = mset [0..DATA_LENGTH - 1]"
    by (rule conjunct1)
  from th e(2) have b: "0 \<le> position (entry_of 14) \<and> position (entry_of 14) < DATA_LENGTH"
    by blast
  from th have c: "int (length (results written_state)) = DATA_LENGTH"
    "fault written_state = None" by blast+
  from th e(3) have d: "(0::int) \<le> 14 \<and> 14 < int (length (results written_state))" by blast
  show ?thesis using h1 h2 written_state_run e a b c d by blast
qed

section \<open>The dequeue step\<close>





lemma exec_sync_inv:
  assumes "exec sched (init n p r0) = Some s"
  shows "sync_inv s"
proof -
  from assms obtain evs where "run sched (init n p r0) = Some (evs, s)" by (rule exec_SomeE)
  then show ?thesis by (rule reachable_inv(1))
qed






section \<open>Pushing and the closed flag\<close>

lemma pushing_state_run: "exec [Produce None] (init 1 [0] [0]) = Some pushing_state"
  by (simp add: exec_def pushing_state_def init_def step_def producer_step_def buffer_ops)

lemma pushing_state_step:
  "step (Produce None) pushing_state = Some (Pushed (entry_of 0), pushed_state)"
  by (simp add: pushing_state_def pushed_state_def step_def producer_step_def buffer_ops)

lemma closed_state_reached:
  "exec (replicate 6 (Produce None)) (init 1 [0] [0]) = Some closed_state"
  by (simp add: exec_def closed_state_def init_def step_def producer_step_def buffer_ops
      notify_all_def eval_nat_numeral)

text \<open>
  Claim C4 as stated fails on the code: the push of the producer does not look at
  \<open>production_is_finished\<close>. In a state with the flag set, the push step appends the entry
  and reports no error.
\<close>

theorem push_after_close_counterexample:
  "production_is_finished (buffer push_state) \<and>
   step (Produce None) push_state =
     Some (Pushed (entry_of 0),
       \<lparr>buffer = \<lparr>mutex = None, data = [entry_of 0], production_is_finished = True\<rparr>,
        prod = PNotifyOne [], cons = [CStart], results = replicate 15 0, fault = None\<rparr>) \<and>
   push_back 0 \<lparr>mutex = Some ProducerThread, data = [], production_is_finished = True\<rparr> =
     \<lparr>mutex = Some ProducerThread, data = [entry_of 0], production_is_finished = True\<rparr>"
  by (simp add: push_state_def step_def producer_step_def buffer_ops)

lemma push_step:
  assumes "prod s = PPush x rest" "fault s = None"
  shows "step (Produce w) s =
    Some (Pushed (entry_of x),
      s\<lparr>buffer := unlock (push_back x (buffer s)), prod := PNotifyOne rest\<rparr>)"
  using assms by (simp add: step_def producer_step_def)

lemma closed_no_push:
  assumes "sync_inv s" "production_is_finished (buffer s)" "step a s = Some (e, s')"
  shows "pushed e = []"
  using assms(3,1,2)
  by (cases rule: step_cases) (simp_all add: sync_inv_def flag_inv_def)

lemma no_push_after_close:
  assumes "run sched s = Some (evs, s')" "sync_inv s" "production_is_finished (buffer s)"
  shows "pushes evs = []"
  using assms
proof (induction sched arbitrary: s evs)
  case Nil
  then show ?case by (simp add: pushes_def)
next
  case (Cons a as)
  from Cons.prems(1) obtain e s1 es where
    st: "step a s = Some (e, s1)" and r: "run as s1 = Some (es, s')" and ev: "evs = e # es"
    by (rule run_ConsE)
  have "sync_inv s1" by (rule sync_inv_step [OF st Cons.prems(2)])
  moreover have "production_is_finished (buffer s1)" by (rule flag_step [OF st Cons.prems(3)])
  ultimately have "pushes es = []" using r Cons.IH by blast
  moreover have "pushed e = []" by (rule closed_no_push [OF Cons.prems(2,3) st])
  ultimately show ?case using ev by (simp add: pushes_def)
qed

text \<open>
  Claim C4, amended. The push appends the entry to the queue whatever the flag is, and
  leaves the flag as it is; there is no error for a closed queue. What holds instead is
  that the program never pushes after closing: in every reachable state in which the
  producer is about to push the flag is unset, and in no run from a reachable state
  with the flag set is anything pushed.
\<close>

theorem push_appends_unguarded:
  "data (push_back x b) = data b @ [entry_of x] \<and>
   production_is_finished (push_back x b) = production_is_finished b \<and>
   (prod s = PPush x rest \<and> fault s = None \<longrightarrow>
      (\<exists>s'. step (Produce w) s = Some (Pushed (entry_of x), s') \<and>
         data (buffer s') = data (buffer s) @ [entry_of x])) \<and>
   (exec sched (init n p r0) = Some s \<longrightarrow>
      (prod s = PPush x rest \<longrightarrow> \<not> production_is_finished (buffer s)) \<and>
      (production_is_finished (buffer s) \<and> run sched' s = Some (evs, s'') \<longrightarrow>
         pushes evs = []))"
proof (intro conjI impI)
  show "data (push_back x b) = data b @ [entry_of x]"
    "production_is_finished (push_back x b) = production_is_finished b"
    by (simp_all add: push_back_def)
next
  assume "prod s = PPush x rest \<and> fault s = None"
  then show "\<exists>s'. step (Produce w) s = Some (Pushed (entry_of x), s') \<and>
         data (buffer s') = data (buffer s) @ [entry_of x]"
    using push_step [of s x rest w] by (simp add: buffer_ops)
next
  assume r: "exec sched (init n p r0) = Some s" and "prod s = PPush x rest"
  with exec_sync_inv [OF r] show "\<not> production_is_finished (buffer s)"
    by (simp add: sync_inv_def flag_inv_def)
next
  assume r: "exec sched (init n p r0) = Some s"
    and "production_is_finished (buffer s) \<and> run sched' s = Some (evs, s'')"
  with exec_sync_inv [OF r] show "pushes evs = []"
    using no_push_after_close [of sched' s evs s''] by blast
qed


theorem push_appends_unguarded_witness:
  "exec [Produce None] (init 1 [0] [0]) = Some pushing_state \<and>
   prod pushing_state = PPush 0 [] \<and> fault pushing_state = None \<and>
   \<not> production_is_finished (buffer pushing_state) \<and>
   step (Produce None) pushing_state = Some (Pushed (entry_of 0), pushed_state) \<and>
   data (buffer pushed_state) = data (buffer pushing_state) @ [entry_of 0] \<and>
   exec (replicate 6 (Produce None)) (init 1 [0] [0]) = Some closed_state \<and>
   production_is_finished (buffer closed_state) \<and>
   run [Consume 0, Consume 0, Consume 0] closed_state =
     Some ([Locked (ConsumerThread 0), Passed 0, PopItem 0 (entry_of 0)],
       \<lparr>buffer = \<lparr>mutex = None, data = [], production_is_finished = True\<rparr>,
        prod = PDone, cons = [CWork (entry_of 0)], results = [0], fault = None\<rparr>) \<and>
   pushes [Locked (ConsumerThread 0), Passed 0, PopItem 0 (entry_of 0)] = []"
proof -
  have p: "prod pushing_state = PPush 0 []" "fault pushing_state = None"
    by (simp_all add: pushing_state_def)
  have c: "production_is_finished (buffer closed_state)" by (simp add: closed_state_def)
  note t1 = push_appends_unguarded [of 0 "buffer pushing_state" pushing_state "[]" None
      "[Produce None]" 1 "[0]" "[0]"]
  note t2 = push_appends_unguarded [of 0 "buffer closed_state" closed_state "[]" None
      "replicate 6 (Produce None)" 1 "[0]" "[0]" "[Consume 0, Consume 0, Consume 0]"
      "[Locked (ConsumerThread 0), Passed 0, PopItem 0 (entry_of 0)]"]
  from t1 p pushing_state_run have a: "\<not> production_is_finished (buffer pushing_state)"
    by blast
  from t1 p have "\<exists>s'. step (Produce None) pushing_state = Some (Pushed (entry_of 0), s') \<and>
      data (buffer s') = data (buffer pushing_state) @ [entry_of 0]" by blast
  with pushing_state_step
  have b: "data (buffer pushed_state) = data (buffer pushing_state) @ [entry_of 0]" by simp
  from t2 c closed_state_reached closed_state_run
  have d: "pushes [Locked (ConsumerThread 0), Passed 0, PopItem 0 (entry_of 0)] = []"
    by blast
  show ?thesis
    using pushing_state_run p a pushing_state_step b closed_state_reached c closed_state_run d
    by blast
qed

section \<open>Closing the queue\<close>

lemma notify_all_idem: "notify_all (notify_all cs) = notify_all cs"
  by (simp add: notify_all_def)

lemma notify_all_no_waiter: "CWait \<notin> set (notify_all cs)"
  by (auto simp: notify_all_def)

lemma close_queue_steps:
  assumes "prod s = PLoop []" "fault s = None" "mutex (buffer s) = None"
  shows "exec [Produce w1, Produce w2, Produce w3] s =
    map_option (\<lambda>t. t\<lparr>prod := PDone\<rparr>) (close_queue s)"
  using assms by (simp add: exec_def close_queue_def step_def producer_step_def)

lemma close_queue_idem:
  assumes "close_queue s = Some s'"
  shows "close_queue s' = Some s'"
proof -
  from assms have m: "mutex (buffer s) = None"
    and s': "s' = s\<lparr>buffer := unlock (finish_production (lock ProducerThread (buffer s))),
                  cons := notify_all (cons s)\<rparr>"
    by (auto simp: close_queue_def split: if_splits)
  show ?thesis unfolding s' by (simp add: close_queue_def buffer_ops notify_all_idem)
qed

text \<open>
  Claim C6. The closing block of the producer (lock, set the flag, unlock, \<open>notify_all\<close>),
  taken as the operation \<open>close_queue\<close> on the shared state, is idempotent. It is defined
  whenever the mutex is free; the state it yields has the flag set, no consumer blocked,
  the mutex free and the queue unchanged, and closing that state again yields the same
  state. The three steps of the producer from the end of its loop are this operation.
\<close>

theorem close_idempotent:
  "(mutex (buffer s) = None \<longrightarrow> close_queue s \<noteq> None) \<and>
   (close_queue s = Some s' \<longrightarrow>
      close_queue s' = Some s' \<and> production_is_finished (buffer s') \<and>
      CWait \<notin> set (cons s') \<and> mutex (buffer s') = None \<and>
      data (buffer s') = data (buffer s)) \<and>
   (prod s = PLoop [] \<and> fault s = None \<and> mutex (buffer s) = None \<longrightarrow>
      exec [Produce w1, Produce w2, Produce w3] s =
        map_option (\<lambda>t. t\<lparr>prod := PDone\<rparr>) (close_queue s))"
proof (intro conjI impI)
  assume "mutex (buffer s) = None"
  then show "close_queue s \<noteq> None" by (simp add: close_queue_def)
next
  assume c: "close_queue s = Some s'"
  then show "close_queue s' = Some s'" by (rule close_queue_idem)
  from c show "production_is_finished (buffer s')" "CWait \<notin> set (cons s')"
    "mutex (buffer s') = None" "data (buffer s') = data (buffer s)"
    by (auto simp: close_queue_def buffer_ops notify_all_no_waiter split: if_splits)
next
  assume "prod s = PLoop [] \<and> fault s = None \<and> mutex (buffer s) = None"
  then show "exec [Produce w1, Produce w2, Produce w3] s =
        map_option (\<lambda>t. t\<lparr>prod := PDone\<rparr>) (close_queue s)"
    using close_queue_steps by blast
qed

lemma waiting_state_close: "close_queue waiting_state = Some released_state"
  by (simp add: close_queue_def waiting_state_def released_state_def buffer_ops
      notify_all_def)

theorem close_idempotent_witness:
  "mutex (buffer waiting_state) = None \<and> prod waiting_state = PLoop [] \<and>
   fault waiting_state = None \<and>
   close_queue waiting_state = Some released_state \<and>
   close_queue released_state = Some released_state \<and>
   production_is_finished (buffer released_state) \<and>
   CWait \<notin> set (cons released_state) \<and>
   exec [Produce None, Produce None, Produce None] waiting_state =
     Some (released_state\<lparr>prod := PDone\<rparr>)"
proof -
  have h: "mutex (buffer waiting_state) = None" "prod waiting_state = PLoop []"
    "fault waiting_state = None"
    by (simp_all add: waiting_state_def)
  note th = close_idempotent [of waiting_state released_state None None None]
  from th waiting_state_close have a: "close_queue released_state = Some released_state"
    "production_is_finished (buffer released_state)" "CWait \<notin> set (cons released_state)"
    by blast+
  from th h have "exec [Produce None, Produce None, Produce None] waiting_state =
        map_option (\<lambda>t. t\<lparr>prod := PDone\<rparr>) (close_queue waiting_state)" by blast
  then have b: "exec [Produce None, Produce None, Produce None] waiting_state =
     Some (released_state\<lparr>prod := PDone\<rparr>)"
    by (simp add: waiting_state_close)
  show ?thesis using h waiting_state_close a b by blast
qed

section \<open>Waking consumers\<close>

lemma notify_state_run:
  "exec [Consume 0, Consume 0, Consume 1, Consume 1, Produce None, Produce None]
     (init 2 [1] (replicate 15 0)) = Some notify_state"
  by (simp add: exec_def notify_state_def init_def step_def producer_step_def
      consumer_step_def buffer_ops eval_nat_numeral)

lemma notify_state_step:
  "step (Produce (Some 1)) notify_state = Some (NotifiedOne (Some 1), notified_state)"
  by (simp add: notify_state_def notified_state_def step_def producer_step_def)

lemma closing_state_run:
  "exec [Consume 0, Consume 0, Consume 1, Consume 1, Produce None, Produce None]
     (init 2 [] (replicate 15 0)) = Some closing_state"
  by (simp add: exec_def closing_state_def init_def step_def producer_step_def
      consumer_step_def buffer_ops eval_nat_numeral)

lemma closing_state_step:
  "step (Produce None) closing_state = Some (NotifiedAll, all_woken_state)"
  by (simp add: closing_state_def all_woken_state_def step_def producer_step_def
      notify_all_def)

lemma waiters_wake:
  "k < length cs \<Longrightarrow> cs ! k = CWait \<Longrightarrow> Suc (waiters (cs[k := CWoken])) = waiters cs"
proof (induction cs arbitrary: k)
  case Nil
  then show ?case by simp
next
  case (Cons c cs)
  show ?case
  proof (cases k)
    case 0
    with Cons.prems show ?thesis by (simp add: waiters_def)
  next
    case (Suc j)
    with Cons.prems Cons.IH [of j] show ?thesis by (simp add: waiters_def)
  qed
qed

lemma waiters_notify_all: "waiters (notify_all cs) = 0"
  by (simp add: waiters_def notify_all_def filter_empty_conv)

lemma waiters_zero: "(waiters cs = 0) = (CWait \<notin> set cs)"
  by (auto simp: waiters_def filter_empty_conv)

lemma producer_wakes:
  assumes "step (Produce w) s = Some (e, s')"
  shows "(\<forall>x rest. prod s = PPush x rest \<longrightarrow>
       e = Pushed (entry_of x) \<and> prod s' = PNotifyOne rest \<and> cons s' = cons s) \<and>
    (\<forall>rest. prod s = PNotifyOne rest \<longrightarrow>
       prod s' = PLoop rest \<and> buffer s' = buffer s \<and>
       (case w of
          Some k \<Rightarrow> k < length (cons s) \<and> cons s ! k = CWait \<and> e = NotifiedOne (Some k) \<and>
            cons s' = (cons s)[k := CWoken] \<and> Suc (waiters (cons s')) = waiters (cons s)
        | None \<Rightarrow> waiters (cons s) = 0 \<and> e = NotifiedOne None \<and> cons s' = cons s)) \<and>
    (prod s = PSetFlag \<longrightarrow>
       e = Closed \<and> production_is_finished (buffer s') \<and> prod s' = PNotifyAll \<and>
       cons s' = cons s) \<and>
    (prod s = PNotifyAll \<longrightarrow>
       e = NotifiedAll \<and> prod s' = PDone \<and> cons s' = notify_all (cons s) \<and>
       waiters (cons s') = 0 \<and> buffer s' = buffer s \<and>
       (\<forall>k<length (cons s). cons s ! k = CWait \<longrightarrow> cons s' ! k = CWoken))"
  using assms
proof (cases rule: step_cases)
  case (st_notify_none rest)
  then show ?thesis by (simp add: waiters_zero)
next
  case (st_notify_some k rest)
  then show ?thesis by (simp add: waiters_wake)
next
  case (st_notify_all w)
  then show ?thesis using waiters_notify_all [of "cons s"] by (simp add: notify_all_def)
qed (simp_all add: buffer_ops)

lemma notify_reachable:
  assumes "exec sched (init n p r0) = Some s"
  shows "(prod s = PNotifyAll \<longrightarrow> production_is_finished (buffer s)) \<and>
      (\<forall>rest. prod s = PNotifyOne rest \<longrightarrow> \<not> production_is_finished (buffer s)) \<and>
      (\<forall>rest. prod s = PNotifyOne rest \<and> fault s = None \<and> 0 < waiters (cons s) \<longrightarrow>
         step (Produce None) s = None \<and>
         (\<exists>k. step (Produce (Some k)) s \<noteq> None))"
proof (intro conjI)
  from exec_sync_inv [OF assms]
  show "prod s = PNotifyAll \<longrightarrow> production_is_finished (buffer s)"
    by (simp add: sync_inv_def flag_inv_def)
  from exec_sync_inv [OF assms]
  show "\<forall>rest. prod s = PNotifyOne rest \<longrightarrow> \<not> production_is_finished (buffer s)"
    by (auto simp: sync_inv_def flag_inv_def)
  show "\<forall>rest. prod s = PNotifyOne rest \<and> fault s = None \<and> 0 < waiters (cons s) \<longrightarrow>
         step (Produce None) s = None \<and> (\<exists>k. step (Produce (Some k)) s \<noteq> None)"
  proof (intro allI impI)
    fix rest
    assume h: "prod s = PNotifyOne rest \<and> fault s = None \<and> 0 < waiters (cons s)"
    then have w: "CWait \<in> set (cons s)" using waiters_zero [of "cons s"] by auto
    then obtain k where k: "k < length (cons s)" "cons s ! k = CWait"
      by (auto simp: in_set_conv_nth)
    have "step (Produce None) s = None"
      using h w by (simp add: step_def producer_step_def)
    moreover have "step (Produce (Some k)) s \<noteq> None"
      using h k by (simp add: step_def producer_step_def)
    ultimately show "step (Produce None) s = None \<and> (\<exists>k. step (Produce (Some k)) s \<noteq> None)"
      by blast
  qed
qed

text \<open>
  Claim C7. The producer wakes one consumer after a push and all consumers after closing.
  The push itself wakes nobody and is followed by \<open>notify_one\<close>; \<open>notify_one\<close> wakes
  exactly one of the blocked consumers when there is one (the number of blocked consumers
  goes down by one) and nobody otherwise, and leaves the buffer alone. Closing sets the
  flag first and is followed by \<open>notify_all\<close>, after which no consumer is blocked: every
  consumer that was blocked is woken. In every reachable state the flag is already set
  when \<open>notify_all\<close> is called and not yet set when \<open>notify_one\<close> is called, and with a
  consumer blocked \<open>notify_one\<close> cannot return without waking one.
\<close>

theorem wake_up_asymmetry:
  "(step (Produce w) s = Some (e, s') \<longrightarrow>
    (\<forall>x rest. prod s = PPush x rest \<longrightarrow>
       e = Pushed (entry_of x) \<and> prod s' = PNotifyOne rest \<and> cons s' = cons s) \<and>
    (\<forall>rest. prod s = PNotifyOne rest \<longrightarrow>
       prod s' = PLoop rest \<and> buffer s' = buffer s \<and>
       (case w of
          Some k \<Rightarrow> k < length (cons s) \<and> cons s ! k = CWait \<and> e = NotifiedOne (Some k) \<and>
            cons s' = (cons s)[k := CWoken] \<and> Suc (waiters (cons s')) = waiters (cons s)
        | None \<Rightarrow> waiters (cons s) = 0 \<and> e = NotifiedOne None \<and> cons s' = cons s)) \<and>
    (prod s = PSetFlag \<longrightarrow>
       e = Closed \<and> production_is_finished (buffer s') \<and> prod s' = PNotifyAll \<and>
       cons s' = cons s) \<and>
    (prod s = PNotifyAll \<longrightarrow>
       e = NotifiedAll \<and> prod s' = PDone \<and> cons s' = notify_all (cons s) \<and>
       waiters (cons s') = 0 \<and> buffer s' = buffer s \<and>
       (\<forall>k<length (cons s). cons s ! k = CWait \<longrightarrow> cons s' ! k = CWoken))) \<and>
   (exec sched (init n p r0) = Some s \<longrightarrow>
      (prod s = PNotifyAll \<longrightarrow> production_is_finished (buffer s)) \<and>
      (\<forall>rest. prod s = PNotifyOne rest \<longrightarrow> \<not> production_is_finished (buffer s)) \<and>
      (\<forall>rest. prod s = PNotifyOne rest \<and> fault s = None \<and> 0 < waiters (cons s) \<longrightarrow>
         step (Produce None) s = None \<and>
         (\<exists>k. step (Produce (Some k)) s \<noteq> None)))"
  apply (rule conjI)
  subgoal by (rule impI) (rule producer_wakes)
  subgoal by (rule impI) (rule notify_reachable)
  done


theorem wake_up_asymmetry_witness:
  "exec [Consume 0, Consume 0, Consume 1, Consume 1, Produce None, Produce None]
     (init 2 [1] (replicate 15 0)) = Some notify_state \<and>
   prod notify_state = PNotifyOne [] \<and> fault notify_state = None \<and>
   0 < waiters (cons notify_state) \<and>
   step (Produce (Some 1)) notify_state = Some (NotifiedOne (Some 1), notified_state) \<and>
   step (Produce None) notify_state = None \<and>
   cons notified_state = (cons notify_state)[1 := CWoken] \<and>
   Suc (waiters (cons notified_state)) = waiters (cons notify_state) \<and>
   \<not> production_is_finished (buffer notify_state) \<and>
   exec [Consume 0, Consume 0, Consume 1, Consume 1, Produce None, Produce None]
     (init 2 [] (replicate 15 0)) = Some closing_state \<and>
   prod closing_state = PNotifyAll \<and> production_is_finished (buffer closing_state) \<and>
   step (Produce None) closing_state = Some (NotifiedAll, all_woken_state) \<and>
   waiters (cons all_woken_state) = 0 \<and> cons all_woken_state = [CWoken, CWoken]"
proof -
  have h: "prod notify_state = PNotifyOne []" "fault notify_state = None"
    "0 < waiters (cons notify_state)"
    by (simp_all add: notify_state_def waiters_def)
  have c: "prod closing_state = PNotifyAll" "cons all_woken_state = [CWoken, CWoken]"
    by (simp_all add: closing_state_def all_woken_state_def)
  note t1 = wake_up_asymmetry [of "Some 1" notify_state "NotifiedOne (Some 1)" notified_state
      "[Consume 0, Consume 0, Consume 1, Consume 1, Produce None, Produce None]" 2 "[1]"
      "replicate 15 0"]
  note t2 = wake_up_asymmetry [of None closing_state NotifiedAll all_woken_state
      "[Consume 0, Consume 0, Consume 1, Consume 1, Produce None, Produce None]" 2 "[]"
      "replicate 15 0"]
  from t1 notify_state_step h(1) have cs: "case Some 1 of
          Some k \<Rightarrow> k < length (cons notify_state) \<and> cons notify_state ! k = CWait \<and>
            NotifiedOne (Some 1) = NotifiedOne (Some k) \<and>
            cons notified_state = (cons notify_state)[k := CWoken] \<and>
            Suc (waiters (cons notified_state)) = waiters (cons notify_state)
        | None \<Rightarrow> waiters (cons notify_state) = 0 \<and> NotifiedOne (Some 1) = NotifiedOne None \<and>
            cons notified_state = cons notify_state" by blast
  from cs [unfolded option.case]
  have a: "cons notified_state = (cons notify_state)[1 := CWoken]"
    "Suc (waiters (cons notified_state)) = waiters (cons notify_state)" by blast+
  from t1 notify_state_run h have b: "step (Produce None) notify_state = None"
    "\<not> production_is_finished (buffer notify_state)" by blast+
  from t2 closing_state_run c(1) have d: "production_is_finished (buffer closing_state)"
    by blast
  from t2 closing_state_step c(1) have e: "waiters (cons all_woken_state) = 0" by blast
  show ?thesis
    using notify_state_run h notify_state_step a b closing_state_run c d closing_state_step e
    by blast
qed

section \<open>Termination\<close>

lemma rank_update:
  "k < length cs \<Longrightarrow>
   sum_list (map rank (cs[k := pc])) + rank (cs ! k) = sum_list (map rank cs) + rank pc"
proof (induction cs arbitrary: k)
  case Nil
  then show ?case by simp
next
  case (Cons c cs)
  show ?case
  proof (cases k)
    case 0
    then show ?thesis by simp
  next
    case (Suc j)
    with Cons.prems Cons.IH [of j] show ?thesis by simp
  qed
qed

lemma rank_notify_all: "sum_list (map rank (notify_all cs)) \<le> sum_list (map rank cs)"
  by (induction cs) (simp_all add: notify_all_def)

lemma work_left_step:
  assumes "step a s = Some (e, s')" "flag_inv s" "production_is_finished (buffer s)"
  shows "work_left s' < work_left s"
  using assms
proof (cases rule: step_cases)
  case (st_notify_all w)
  then show ?thesis using rank_notify_all [of "cons s"] by (simp add: work_left_def)
next
  case (st_lockC k)
  then show ?thesis using rank_update [of k "cons s" CCheck]
    by (simp add: work_left_def buffer_ops)
next
  case (st_pass k)
  then show ?thesis using rank_update [of k "cons s" CHandle]
    by (simp add: work_left_def buffer_ops)
next
  case (st_relock k)
  then show ?thesis using rank_update [of k "cons s" CCheck]
    by (simp add: work_left_def buffer_ops)
next
  case (st_pop_empty k)
  then show ?thesis using rank_update [of k "cons s" CDone] assms(3)
    by (simp add: work_left_def buffer_ops)
next
  case (st_pop_item k be rest)
  then show ?thesis using rank_update [of k "cons s" "CWork be"]
    by (simp add: work_left_def buffer_ops)
next
  case (st_write k be v)
  then show ?thesis using rank_update [of k "cons s" CStart]
    by (simp add: work_left_def buffer_ops)
next
  case (st_spurious k)
  then show ?thesis using rank_update [of k "cons s" CWoken]
    by (simp add: work_left_def buffer_ops)
qed (simp_all add: work_left_def flag_inv_def buffer_ops)

lemma work_left_run:
  assumes "run sched s = Some (evs, s')" "sync_inv s" "production_is_finished (buffer s)"
  shows "length sched + work_left s' \<le> work_left s"
  using assms
proof (induction sched arbitrary: s evs)
  case Nil
  then show ?case by simp
next
  case (Cons a as)
  from Cons.prems(1) obtain e s1 es where
    st: "step a s = Some (e, s1)" and r: "run as s1 = Some (es, s')"
    by (rule run_ConsE)
  have i: "sync_inv s1" by (rule sync_inv_step [OF st Cons.prems(2)])
  have f: "production_is_finished (buffer s1)" by (rule flag_step [OF st Cons.prems(3)])
  have "work_left s1 < work_left s"
    using st Cons.prems(2,3) by (intro work_left_step) (simp_all add: sync_inv_def)
  with Cons.IH [OF r i f] show ?case by simp
qed

lemma consumer_enabled:
  assumes "fault s = None" "k < length (cons s)"
    "cons s ! k = CCheck \<or> cons s ! k = CHandle \<or> (\<exists>be. cons s ! k = CWork be)"
  shows "step (Consume k) s \<noteq> None"
  using assms
  by (auto simp: step_def consumer_step_def Let_def split: list.splits sum.splits)

lemma not_spurious: "\<not> is_spurious (Produce w)" "\<not> is_spurious (Consume k)"
  by simp_all

lemma holder_enabled:
  assumes "mutex_inv s" "fault s = None" "mutex (buffer s) = Some t" "\<not> in_critical s ProducerThread"
  shows "\<exists>a. \<not> is_spurious a \<and> step a s \<noteq> None"
proof (cases t)
  case ProducerThread
  with assms(1,3,4) show ?thesis by (simp add: mutex_inv_def)
next
  case (ConsumerThread k)
  with assms(1,3) have "in_critical s (ConsumerThread k)" by (simp add: mutex_inv_def)
  then have "k < length (cons s)" "cons s ! k = CCheck \<or> cons s ! k = CHandle"
    by (simp_all add: in_critical_consumer)
  then have "step (Consume k) s \<noteq> None" using assms(2) by (intro consumer_enabled) auto
  then show ?thesis using not_spurious by blast
qed

lemma progress:
  assumes "sync_inv s" "fault s = None" "\<not> joined s"
  shows "\<exists>a. \<not> is_spurious a \<and> step a s \<noteq> None"
proof -
  have mi: "mutex_inv s" using assms(1) by (simp add: sync_inv_def)
  show ?thesis
  proof (cases "prod s")
    case (PLoop rest)
    show ?thesis
    proof (cases "mutex (buffer s)")
      case None
      with PLoop assms(2) have "step (Produce None) s \<noteq> None"
        by (simp add: step_def producer_step_def)
      then show ?thesis using not_spurious by blast
    next
      case (Some t)
      with PLoop show ?thesis
        by (intro holder_enabled [OF mi assms(2)]) (simp_all add: in_critical_producer)
    qed
  next
    case (PPush x rest)
    with assms(2) have "step (Produce None) s \<noteq> None" by (simp add: step_def producer_step_def)
    then show ?thesis using not_spurious by blast
  next
    case (PNotifyOne rest)
    show ?thesis
    proof (cases "CWait \<in> set (cons s)")
      case True
      then obtain k where "k < length (cons s)" "cons s ! k = CWait"
        by (auto simp: in_set_conv_nth)
      with PNotifyOne assms(2) have "step (Produce (Some k)) s \<noteq> None"
        by (simp add: step_def producer_step_def)
      then show ?thesis using not_spurious by blast
    next
      case False
      with PNotifyOne assms(2) have "step (Produce None) s \<noteq> None"
        by (simp add: step_def producer_step_def)
      then show ?thesis using not_spurious by blast
    qed
  next
    case PSetFlag
    with assms(2) have "step (Produce None) s \<noteq> None" by (simp add: step_def producer_step_def)
    then show ?thesis using not_spurious by blast
  next
    case PNotifyAll
    with assms(2) have "step (Produce None) s \<noteq> None" by (simp add: step_def producer_step_def)
    then show ?thesis using not_spurious by blast
  next
    case PDone
    with assms(2,3) obtain k where k: "k < length (cons s)" "cons s ! k \<noteq> CDone"
      by (auto simp: joined_def list_all_length)
    have nw: "cons s ! k \<noteq> CWait"
      using assms(1) PDone k(1) by (auto simp: sync_inv_def wait_inv_def in_set_conv_nth)
    show ?thesis
    proof (cases "mutex (buffer s)")
      case None
      have "step (Consume k) s \<noteq> None"
      proof (cases "cons s ! k")
        case CStart
        with None k(1) assms(2) show ?thesis by (simp add: step_def consumer_step_def)
      next
        case CWoken
        with None k(1) assms(2) show ?thesis by (simp add: step_def consumer_step_def)
      next
        case CWait
        with nw show ?thesis by simp
      next
        case CDone
        with k(2) show ?thesis by simp
      next
        case CCheck
        with k(1) assms(2) show ?thesis by (intro consumer_enabled) simp_all
      next
        case CHandle
        with k(1) assms(2) show ?thesis by (intro consumer_enabled) simp_all
      next
        case (CWork be)
        with k(1) assms(2) show ?thesis by (intro consumer_enabled) simp_all
      qed
      then show ?thesis using not_spurious by blast
    next
      case (Some t)
      with PDone show ?thesis
        by (intro holder_enabled [OF mi assms(2)]) (simp_all add: in_critical_producer)
    qed
  qed
qed

lemma store_inv_run:
  assumes "run sched s = Some (evs, s')" "store_inv p s" "set p \<subseteq> {0..DATA_LENGTH - 1}"
  shows "store_inv p s'"
  using assms(1,2)
proof (induction sched arbitrary: s evs)
  case Nil
  then show ?case by simp
next
  case (Cons a as)
  from Cons.prems(1) obtain e s1 es where
    st: "step a s = Some (e, s1)" and r: "run as s1 = Some (es, s')"
    by (rule run_ConsE)
  have "store_inv p s1" by (rule store_inv_step [OF st Cons.prems(2) assms(3)])
  with r show ?case by (rule Cons.IH)
qed

lemma finish:
  assumes "sync_inv s" "store_inv p s" "set p \<subseteq> {0..DATA_LENGTH - 1}"
    "production_is_finished (buffer s)"
  shows "\<exists>sched s'. own_steps sched \<and> exec sched s = Some s' \<and> joined s'"
  using assms
proof (induction "work_left s" arbitrary: s rule: less_induct)
  case less
  show ?case
  proof (cases "joined s")
    case True
    then have "own_steps [] \<and> exec [] s = Some s \<and> joined s"
      by (simp add: exec_def own_steps_def)
    then show ?thesis by blast
  next
    case False
    have f: "fault s = None" using less.prems(2) by (simp add: store_inv_def)
    from progress [OF less.prems(1) f False] obtain a e s1 where
      ns: "\<not> is_spurious a" and st: "step a s = Some (e, s1)" by auto
    have i1: "sync_inv s1" by (rule sync_inv_step [OF st less.prems(1)])
    have i2: "store_inv p s1" by (rule store_inv_step [OF st less.prems(2,3)])
    have i3: "production_is_finished (buffer s1)" by (rule flag_step [OF st less.prems(4)])
    have "work_left s1 < work_left s"
      using st less.prems(1,4) by (intro work_left_step) (simp_all add: sync_inv_def)
    from less.hyps [OF this i1 i2 less.prems(3) i3] obtain sched s' where
      "own_steps sched" "exec sched s1 = Some s'" "joined s'" by blast
    with st ns have "own_steps (a # sched) \<and> exec (a # sched) s = Some s' \<and> joined s'"
      by (auto simp: exec_def own_steps_def split: option.splits)
    then show ?thesis by blast
  qed
qed

text \<open>
  Claim C8. Termination, for any number of consumers, on the data of \<open>main\<close>. No progress
  here rests on a spurious wake-up: in every reachable state in which some thread has not
  returned, the producer or a consumer can itself make a step, so the program has no
  deadlock, and no consumer is left blocked when the producer has returned. Once the
  producer has set \<open>production_is_finished\<close>, every continuation, under any schedule and
  with any spurious wake-ups, has at most \<open>work_left\<close> steps; as long as it has not ended
  with all threads returned, a thread can itself make a step; and some continuation made
  of steps of the threads only ends with all threads returned. So every consumer leaves
  its loop after finitely many steps.
\<close>

theorem workers_terminate:
  assumes "permuting shuffle" "length r0 = nat DATA_LENGTH"
    "exec sched (init n (random_permutation shuffle DATA_LENGTH) r0) = Some s"
  shows "(\<not> joined s \<longrightarrow> (\<exists>a. \<not> is_spurious a \<and> step a s \<noteq> None)) \<and>
    (production_is_finished (buffer s) \<longrightarrow>
       (\<forall>sched' evs s'. run sched' s = Some (evs, s') \<longrightarrow>
          length sched' \<le> work_left s \<and>
          (\<not> joined s' \<longrightarrow> (\<exists>a. \<not> is_spurious a \<and> step a s' \<noteq> None))) \<and>
       (\<exists>sched' s'. own_steps sched' \<and> exec sched' s = Some s' \<and> joined s'))"
proof -
  let ?p = "random_permutation shuffle DATA_LENGTH"
  from assms(3) obtain evs0 where r: "run sched (init n ?p r0) = Some (evs0, s)"
    by (rule exec_SomeE)
  have sp: "set ?p = {0..DATA_LENGTH - 1}" by (rule random_permutation_set [OF assms(1)])
  then have sb: "set ?p \<subseteq> {0..DATA_LENGTH - 1}" by simp
  have si: "sync_inv s" by (rule reachable_inv(1) [OF r])
  have st: "store_inv ?p s" using reachable_inv(2) [OF r] assms(2) sp by simp
  then have f: "fault s = None" by (simp add: store_inv_def)
  have a: "\<not> joined s \<longrightarrow> (\<exists>a. \<not> is_spurious a \<and> step a s \<noteq> None)"
    using progress [OF si f] by blast
  have b: "length sched' \<le> work_left s \<and>
      (\<not> joined s' \<longrightarrow> (\<exists>a. \<not> is_spurious a \<and> step a s' \<noteq> None))"
    if "production_is_finished (buffer s)" "run sched' s = Some (evs, s')" for sched' evs s'
  proof -
    have "sync_inv s'" by (rule sync_inv_run [OF that(2) si])
    moreover have "store_inv ?p s'" by (rule store_inv_run [OF that(2) st sb])
    then have "fault s' = None" by (simp add: store_inv_def)
    ultimately have "\<not> joined s' \<longrightarrow> (\<exists>a. \<not> is_spurious a \<and> step a s' \<noteq> None)"
      using progress [of s'] by blast
    moreover have "length sched' \<le> work_left s"
      using work_left_run [OF that(2) si that(1)] by simp
    ultimately show ?thesis by blast
  qed
  have c: "\<exists>sched' s'. own_steps sched' \<and> exec sched' s = Some s' \<and> joined s'"
    if "production_is_finished (buffer s)"
    by (rule finish [OF si st sb that])
  show ?thesis using a b c by blast
qed

lemma produced_state_run:
  "exec (replicate 48 (Produce None)) (init 8 (random_permutation rev DATA_LENGTH)
     (replicate 15 0)) = Some produced_state"
  by (simp add: exec_def main_permutation init_def produced_state_def step_def
      producer_step_def buffer_ops notify_all_def eval_nat_numeral)

lemma popping_state_run:
  "run [Consume 0, Consume 0, Consume 0] produced_state =
     Some ([Locked (ConsumerThread 0), Passed 0, PopItem 0 (entry_of 14)], popping_state)"
  by (simp add: produced_state_def popping_state_def step_def consumer_step_def buffer_ops
      eval_nat_numeral)

lemma produced_work_left: "work_left produced_state = 85"
  by (simp add: work_left_def produced_state_def eval_nat_numeral)

theorem workers_terminate_witness:
  "permuting rev \<and> length (replicate 15 (0::int)) = nat DATA_LENGTH \<and>
   exec (replicate 48 (Produce None)) (init 8 (random_permutation rev DATA_LENGTH)
     (replicate 15 0)) = Some produced_state \<and>
   \<not> joined produced_state \<and>
   (\<exists>a. \<not> is_spurious a \<and> step a produced_state \<noteq> None) \<and>
   production_is_finished (buffer produced_state) \<and>
   run [Consume 0, Consume 0, Consume 0] produced_state =
     Some ([Locked (ConsumerThread 0), Passed 0, PopItem 0 (entry_of 14)], popping_state) \<and>
   length [Consume 0, Consume 0, Consume 0] \<le> work_left produced_state \<and>
   work_left produced_state = 85 \<and>
   \<not> joined popping_state \<and>
   (\<exists>a. \<not> is_spurious a \<and> step a popping_state \<noteq> None) \<and>
   (\<exists>sched' s'. own_steps sched' \<and> exec sched' produced_state = Some s' \<and> joined s')"
proof -
  have h1: "permuting rev" by (simp add: permuting_def)
  have h2: "length (replicate 15 (0::int)) = nat DATA_LENGTH"
    by (simp add: DATA_LENGTH_def DATA_END_def DATA_START_def)
  have j: "\<not> joined produced_state"
    by (simp add: joined_def produced_state_def list_all_iff)
  have j': "\<not> joined popping_state"
    by (simp add: joined_def popping_state_def)
  have f: "production_is_finished (buffer produced_state)" by (simp add: produced_state_def)
  note th = workers_terminate [OF h1 h2 produced_state_run]
  from th j have a: "\<exists>a. \<not> is_spurious a \<and> step a produced_state \<noteq> None" by blast
  from th f popping_state_run
  have b: "length [Consume 0, Consume 0, Consume 0] \<le> work_left produced_state" by blast
  from th f popping_state_run j'
  have b': "\<exists>a. \<not> is_spurious a \<and> step a popping_state \<noteq> None" by blast
  from th f
  have c: "\<exists>sched' s'. own_steps sched' \<and> exec sched' produced_state = Some s' \<and> joined s'"
    by blast
  show ?thesis
    using h1 h2 produced_state_run j a f popping_state_run b produced_work_left j' b' c
    by blast
qed

end
